theory Spec2Isabelle
  imports Complex_Main "HOL-Library.Multiset"
begin

section \<open>Bucket labels: \<open>parseBucketUpperBoundMs\<close>\<close>

text \<open>
  Go's \<open>float64\<close> is idealised as \<open>real\<close> throughout: sums, differences and comparisons
  are exact. Strings are byte lists.

  The function compiles the regular expression \<^verbatim>\<open>(\d+(\.\d+)?)(\+)?ms$\<close> and asks for
  the leftmost match and its three groups. \<open>matchAt\<close> is a match attempt that starts at the
  first byte of its argument. Every piece of the expression is followed by a piece that starts
  with a different class of bytes (a digit run by \<open>.\<close>, \<open>+\<close> or \<open>m\<close>; the fraction by
  \<open>+\<close> or \<open>m\<close>; the sign by \<open>m\<close>), so a greedy piece that gave a byte back could never be
  continued, and the attempt is deterministic: longest digit run, then the fraction when a dot
  and a digit follow, then the sign when present, then exactly \<open>ms\<close> up to the end of the text.
  The result holds the groups 1, 2, 3 as \<open>FindStringSubmatch\<close> returns them (an unmatched
  group is the empty string).
\<close>

definition isDigit :: "char \<Rightarrow> bool" where
  "isDigit c = (c \<in> set ''0123456789'')"

definition matchAt :: "string \<Rightarrow> (string \<times> string \<times> string) option" where
  "matchAt s =
     (let d1 = takeWhile isDigit s; r1 = dropWhile isDigit s in
      if d1 = [] then None
      else
        let (g2, r2) =
              (case r1 of
                 [] \<Rightarrow> ([], r1)
               | c # t \<Rightarrow>
                   if c = CHR ''.'' \<and> takeWhile isDigit t \<noteq> []
                   then (c # takeWhile isDigit t, dropWhile isDigit t)
                   else ([], r1));
            (g3, r3) =
              (case r2 of
                 [] \<Rightarrow> ([], r2)
               | c # t \<Rightarrow> if c = CHR ''+'' then ([c], t) else ([], r2))
        in if r3 = ''ms'' then Some (d1 @ g2, g2, g3) else None)"

text \<open>\<open>re.FindStringSubmatch\<close>: the attempt at the leftmost position that succeeds.\<close>

fun FindStringSubmatch :: "string \<Rightarrow> (string \<times> string \<times> string) option" where
  "FindStringSubmatch [] = None"
| "FindStringSubmatch (c # t) =
     (case matchAt (c # t) of
        Some m \<Rightarrow> Some m
      | None \<Rightarrow> FindStringSubmatch t)"

text \<open>
  \<open>strconv.ParseFloat\<close> is only ever called on group 1, a digit run with an optional
  fraction; on such a token it returns the decimal value (here exactly; in Go rounded to the
  nearest \<open>float64\<close>, and infinite for a token beyond the range of \<open>float64\<close>, with an
  error that the caller discards).
\<close>

definition digitVal :: "char \<Rightarrow> nat" where
  "digitVal c = of_char c - 48"

definition decNat :: "string \<Rightarrow> nat" where
  "decNat ds = foldl (\<lambda>a c. 10 * a + digitVal c) 0 ds"

definition ParseFloat :: "string \<Rightarrow> real" where
  "ParseFloat s =
     (let ip = takeWhile isDigit s; r = dropWhile isDigit s in
      real (decNat ip) + (case r of [] \<Rightarrow> 0 | _ # fp \<Rightarrow> real (decNat fp) / 10 ^ length fp))"

definition parseBucketUpperBoundMs :: "string \<Rightarrow> real" where
  "parseBucketUpperBoundMs bucket =
     (case FindStringSubmatch bucket of
        Some (g1, g2, g3) \<Rightarrow> if g3 = ''+'' then 1000000000 else ParseFloat g1
      | None \<Rightarrow> 0)"

text \<open>
  A numeric token of the expression, \<^verbatim>\<open>\d+(\.\d+)?\<close>, as a predicate on whole strings.
  It is used to state what the function does, not to compute it.
\<close>

definition numTok :: "string \<Rightarrow> bool" where
  "numTok t =
     (let d1 = takeWhile isDigit t; r = dropWhile isDigit t in
      d1 \<noteq> [] \<and> (r = [] \<or> (hd r = CHR ''.'' \<and> tl r \<noteq> [] \<and> list_all isDigit (tl r))))"

section \<open>Nested documents: \<open>getNestedValue\<close>\<close>

text \<open>
  A value of type \<open>interface{}\<close>. \<open>json.Unmarshal\<close> produces \<open>Float64V\<close>, \<open>StrV\<close>, \<open>BoolV\<close>,
  \<open>NilV\<close>, \<open>MapV\<close> and \<open>SliceV\<close>; the type switch of \<open>getNestedValue\<close> also has cases for
  \<open>int\<close>, \<open>int64\<close> and \<open>json.Number\<close>. A \<open>json.Number\<close> carries the outcome of its
  \<open>Float64()\<close> method: \<open>None\<close> when that returns an error. \<open>OtherV\<close> stands for a value
  of any other dynamic type. A Go map is an association list read with \<open>map_of\<close>.
\<close>

datatype dyn =
    Float64V real
  | IntV int
  | Int64V int
  | NumberV "real option"
  | StrV string
  | BoolV bool
  | NilV
  | MapV "(string \<times> dyn) list"
  | SliceV "dyn list"
  | OtherV

text \<open>\<open>strings.Split(path, "/")\<close>: never empty; the empty path gives one empty segment.\<close>

fun Split :: "string \<Rightarrow> char \<Rightarrow> string list" where
  "Split [] sep = [[]]"
| "Split (c # cs) sep =
     (if c = sep then [] # Split cs sep
      else (case Split cs sep of [] \<Rightarrow> [[c]] | p # ps \<Rightarrow> (c # p) # ps))"

text \<open>The type switch at the last segment; \<open>None\<close> is the result \<open>(0, false)\<close>.\<close>

fun toFloat64 :: "dyn \<Rightarrow> real option" where
  "toFloat64 (Float64V v) = Some v"
| "toFloat64 (IntV v) = Some (real_of_int v)"
| "toFloat64 (Int64V v) = Some (real_of_int v)"
| "toFloat64 (NumberV n) = n"
| "toFloat64 _ = None"

text \<open>The loop over the segments, \<open>current\<close> being the value reached so far.\<close>

fun walk :: "dyn \<Rightarrow> string list \<Rightarrow> real option" where
  "walk current [] = None"
| "walk current (part # rest) =
     (case current of
        MapV m \<Rightarrow>
          (case map_of m part of
             None \<Rightarrow> None
           | Some v \<Rightarrow> if rest = [] then toFloat64 v else walk v rest)
      | _ \<Rightarrow> None)"

definition getNestedValue :: "(string \<times> dyn) list \<Rightarrow> string \<Rightarrow> real option" where
  "getNestedValue data path = walk (MapV data) (Split path CHR ''/'')"

text \<open>
  What the specification asks of the extraction, in its own words: walk the path through
  nested maps, absent when a segment is missing or the value reached is not a map, and
  absent for the empty path. \<open>resolve\<close> is the walk, \<open>extractValue\<close> adds the coercion.
\<close>

fun resolve :: "dyn \<Rightarrow> string list \<Rightarrow> dyn option" where
  "resolve v [] = Some v"
| "resolve v (seg # segs) =
     (case v of
        MapV m \<Rightarrow> (case map_of m seg of None \<Rightarrow> None | Some w \<Rightarrow> resolve w segs)
      | _ \<Rightarrow> None)"

definition extractValue :: "(string \<times> dyn) list \<Rightarrow> string list \<Rightarrow> real option" where
  "extractValue document segs =
     (if segs = [] then None
      else (case resolve (MapV document) segs of None \<Rightarrow> None | Some v \<Rightarrow> toFloat64 v))"

section \<open>The registry: descriptors, counters, gauges, bucket state\<close>

datatype metricType = counter | gauge

record metricDesc =
  JSONName :: string
  PromName :: string
  Help :: string
  Type :: metricType

definition crbMetricDescs :: "metricDesc list" where
  "crbMetricDescs =
     [\<lparr>JSONName = ''writeSuccesses'', PromName = ''crb_successful_cycle_count'',
       Help = ''Total number of successful cycles'', Type = counter\<rparr>,
      \<lparr>JSONName = ''writeAttempts'', PromName = ''crb_total_cycle_count'',
       Help = ''Total number of cycles'', Type = counter\<rparr>,
      \<lparr>JSONName = ''cycleDelay/totalNs'', PromName = ''crb_sum_cycle_extension_duration'',
       Help = ''Sum of cycle extension durations'', Type = counter\<rparr>,
      \<lparr>JSONName = ''cycleDelay/minNs'', PromName = ''crb_min_cycle_extension_duration'',
       Help = ''Minimum cycle extension duration'', Type = gauge\<rparr>,
      \<lparr>JSONName = ''cycleDelay/maxNs'', PromName = ''crb_max_cycle_extension_duration'',
       Help = ''Maximum cycle extension duration'', Type = gauge\<rparr>,
      \<lparr>JSONName = ''writeDuration/minNs'', PromName = ''crb_min_write_duration'',
       Help = ''Minimum write duration'', Type = gauge\<rparr>,
      \<lparr>JSONName = ''writeDuration/maxNs'', PromName = ''crb_max_write_duration'',
       Help = ''Maximum write duration'', Type = gauge\<rparr>,
      \<lparr>JSONName = ''writeDuration/totalNs'', PromName = ''crb_sum_write_duration'',
       Help = ''Sum of write durations'', Type = counter\<rparr>]"

text \<open>
  The package-level variables. A \<open>CounterVec\<close> or \<open>GaugeVec\<close> is a map from label values
  to the value of the series, absent while the series has not been created; \<open>crbMetrics\<close>
  and \<open>crbGauges\<close> are keyed by (exported name, instance). The bucket maps of the source are
  keyed by the string \<open>vplc_instance + "|" + le\<close> with \<open>le\<close> the bound formatted by
  \<open>strconv.FormatFloat(_, 'f', -1, 64)\<close>. That format is injective and its output has no
  \<open>|\<close>, so the key determines the pair (instance, bound) and the pair is the key here; the
  same pair is the label pair of the bucket series.
\<close>

record registry =
  previousCounterValues :: "string \<rightharpoonup> (string \<rightharpoonup> real)"
  crbMetrics :: "string \<times> string \<rightharpoonup> real"
  crbGauges :: "string \<times> string \<rightharpoonup> real"
  prevWriteBuckets :: "string \<times> real \<rightharpoonup> real"
  prevCycleBuckets :: "string \<times> real \<rightharpoonup> real"
  writeDurationBuckets :: "string \<times> real \<rightharpoonup> real"
  cycleExtensionBuckets :: "string \<times> real \<rightharpoonup> real"

definition emptyRegistry :: registry where
  "emptyRegistry =
     \<lparr>previousCounterValues = Map.empty, crbMetrics = Map.empty, crbGauges = Map.empty,
      prevWriteBuckets = Map.empty, prevCycleBuckets = Map.empty,
      writeDurationBuckets = Map.empty, cycleExtensionBuckets = Map.empty\<rparr>"

text \<open>Reading a Go map of numbers: a missing key reads as the zero value.\<close>

definition index0 :: "('k \<rightharpoonup> real) \<Rightarrow> 'k \<Rightarrow> real" where
  "index0 m k = (case m k of None \<Rightarrow> 0 | Some v \<Rightarrow> v)"

text \<open>
  \<open>vec.WithLabelValues(k)\<close> creates the series at 0 when it does not exist yet;
  \<open>.Add(d)\<close> adds to it. (\<open>Add\<close> panics on a negative argument; every call of the source
  is guarded by \<open>delta > 0\<close>.) \<open>seriesValue\<close> is what a scrape reports.
\<close>

definition WithLabelValues :: "('k \<rightharpoonup> real) \<Rightarrow> 'k \<Rightarrow> ('k \<rightharpoonup> real)" where
  "WithLabelValues vec k = (case vec k of None \<Rightarrow> vec(k \<mapsto> 0) | Some _ \<Rightarrow> vec)"

definition Add :: "('k \<rightharpoonup> real) \<Rightarrow> 'k \<Rightarrow> real \<Rightarrow> ('k \<rightharpoonup> real)" where
  "Add vec k d = vec(k \<mapsto> index0 vec k + d)"

definition seriesValue :: "('k \<rightharpoonup> real) \<Rightarrow> 'k \<Rightarrow> real" where
  "seriesValue vec k = index0 vec k"

section \<open>\<open>updateCRBMetrics\<close>\<close>

text \<open>The \<open>case counter\<close> branch for one descriptor, with \<open>v\<close> the value just read.\<close>

definition updateCounter :: "string \<Rightarrow> string \<Rightarrow> real \<Rightarrow> registry \<Rightarrow> registry" where
  "updateCounter promName vplc_instance v st =
     (let inner = (case previousCounterValues st promName of
                     None \<Rightarrow> Map.empty
                   | Some m \<Rightarrow> m);
          prevValue = index0 inner vplc_instance;
          delta = v - prevValue;
          vec = (if delta > 0
                 then Add (WithLabelValues (crbMetrics st) (promName, vplc_instance))
                        (promName, vplc_instance) delta
                 else crbMetrics st)
      in st\<lparr>previousCounterValues := (previousCounterValues st)(promName \<mapsto> inner(vplc_instance \<mapsto> v)),
            crbMetrics := vec\<rparr>)"

definition updateDesc :: "(string \<times> dyn) list \<Rightarrow> string \<Rightarrow> registry \<Rightarrow> metricDesc \<Rightarrow> registry" where
  "updateDesc performanceData vplc_instance st desc =
     (case getNestedValue performanceData (JSONName desc) of
        None \<Rightarrow> st
      | Some v \<Rightarrow>
          (case Type desc of
             counter \<Rightarrow> updateCounter (PromName desc) vplc_instance v st
           | gauge \<Rightarrow>
               st\<lparr>crbGauges := (crbGauges st)((PromName desc, vplc_instance) \<mapsto> v)\<rparr>))"

definition updateCRBMetrics :: "(string \<times> dyn) list \<Rightarrow> string \<Rightarrow> registry \<Rightarrow> registry" where
  "updateCRBMetrics data vplc_instance st =
     (case map_of data ''performanceMetrics'' of
        Some (MapV performanceData) \<Rightarrow>
          foldl (updateDesc performanceData vplc_instance) st crbMetricDescs
      | _ \<Rightarrow> st)"

section \<open>\<open>updateHistograms\<close>\<close>

text \<open>
  The histogram document. Each of its two maps is an association list; the order of the
  list stands for the order in which \<open>range\<close> happens to visit the map.
\<close>

record Histogram =
  Timestamp :: int
  CycleExtensionDurationHistogram :: "(string \<times> real) list"
  WriteDurationHistogram :: "(string \<times> real) list"

definition getPreviousBucketValue :: "string \<Rightarrow> string \<times> real \<Rightarrow> registry \<Rightarrow> real" where
  "getPreviousBucketValue kind key st =
     (if kind = ''write'' then index0 (prevWriteBuckets st) key
      else if kind = ''cycle'' then index0 (prevCycleBuckets st) key
      else 0)"

definition setPreviousBucketValue :: "string \<Rightarrow> string \<times> real \<Rightarrow> real \<Rightarrow> registry \<Rightarrow> registry" where
  "setPreviousBucketValue kind key val st =
     (if kind = ''write'' then st\<lparr>prevWriteBuckets := (prevWriteBuckets st)(key \<mapsto> val)\<rparr>
      else if kind = ''cycle'' then st\<lparr>prevCycleBuckets := (prevCycleBuckets st)(key \<mapsto> val)\<rparr>
      else st)"

text \<open>
  The keys of a map, collected by \<open>range\<close> and sorted with \<open>sort.Slice\<close> on the parsed
  bound. \<open>sort.Slice\<close> is not stable and the visiting order is not fixed, so labels with
  equal bounds may come out in any order; \<open>sortedKeys\<close> is the outcome that keeps them in
  visiting order, and \<open>keysSortedFor\<close> holds of every outcome the source can produce.
\<close>

definition sortedKeys :: "(string \<times> real) list \<Rightarrow> string list" where
  "sortedKeys m = sort_key parseBucketUpperBoundMs (map fst m)"

definition keysSortedFor :: "(string \<times> real) list \<Rightarrow> string list \<Rightarrow> bool" where
  "keysSortedFor m ks =
     (mset ks = mset (map fst m) \<and> sorted (map parseBucketUpperBoundMs ks))"

text \<open>
  The first loop (lines 225 to 235), over the sorted keys that remain, with \<open>cumulative\<close>
  the running sum so far.
\<close>

fun writeLoop :: "(string \<times> real) list \<Rightarrow> string \<Rightarrow> string list \<Rightarrow> real \<Rightarrow> registry \<Rightarrow> registry" where
  "writeLoop m vplc_instance [] cumulative st = st"
| "writeLoop m vplc_instance (k # ks) cumulative st =
     (let cumulative' = cumulative + index0 (map_of m) k;
          le = parseBucketUpperBoundMs k;
          st1 = st\<lparr>writeDurationBuckets :=
                     WithLabelValues (writeDurationBuckets st) (vplc_instance, le)\<rparr>;
          delta = cumulative' - getPreviousBucketValue ''write'' (vplc_instance, le) st1;
          st2 = (if delta > 0
                 then st1\<lparr>writeDurationBuckets :=
                            Add (writeDurationBuckets st1) (vplc_instance, le) delta\<rparr>
                 else st1);
          st3 = setPreviousBucketValue ''write'' (vplc_instance, le) cumulative' st2
      in writeLoop m vplc_instance ks cumulative' st3)"

text \<open>The second loop (lines 245 to 255).\<close>

fun cycleLoop :: "(string \<times> real) list \<Rightarrow> string \<Rightarrow> string list \<Rightarrow> real \<Rightarrow> registry \<Rightarrow> registry" where
  "cycleLoop m vplc_instance [] cumulative st = st"
| "cycleLoop m vplc_instance (k # ks) cumulative st =
     (let cumulative' = cumulative + index0 (map_of m) k;
          le = parseBucketUpperBoundMs k;
          st1 = st\<lparr>cycleExtensionBuckets :=
                     WithLabelValues (cycleExtensionBuckets st) (vplc_instance, le)\<rparr>;
          delta = cumulative' - getPreviousBucketValue ''cycle'' (vplc_instance, le) st1;
          st2 = (if delta > 0
                 then st1\<lparr>cycleExtensionBuckets :=
                            Add (cycleExtensionBuckets st1) (vplc_instance, le) delta\<rparr>
                 else st1);
          st3 = setPreviousBucketValue ''cycle'' (vplc_instance, le) cumulative' st2
      in cycleLoop m vplc_instance ks cumulative' st3)"

text \<open>The function with the two sorted slices given, and with the slices it computes.\<close>

definition updateHistogramsFrom ::
  "string list \<Rightarrow> string list \<Rightarrow> Histogram \<Rightarrow> string \<Rightarrow> registry \<Rightarrow> registry" where
  "updateHistogramsFrom sortedWriteKeys sortedCycleKeys hist vplc_instance st =
     cycleLoop (CycleExtensionDurationHistogram hist) vplc_instance sortedCycleKeys 0
       (writeLoop (WriteDurationHistogram hist) vplc_instance sortedWriteKeys 0 st)"

definition updateHistograms :: "Histogram \<Rightarrow> string \<Rightarrow> registry \<Rightarrow> registry" where
  "updateHistograms hist vplc_instance st =
     updateHistogramsFrom (sortedKeys (WriteDurationHistogram hist))
       (sortedKeys (CycleExtensionDurationHistogram hist)) hist vplc_instance st"

text \<open>
  Both loops do the same to their own pair of maps (stored previous values, bucket series).
  \<open>bucketLoop\<close> is that common loop on a pair of maps; it serves the proofs, which relate
  each loop of the source to it.
\<close>

fun bucketLoop ::
  "(string \<times> real) list \<Rightarrow> string \<Rightarrow> string list \<Rightarrow> real \<Rightarrow>
   (string \<times> real \<rightharpoonup> real) \<times> (string \<times> real \<rightharpoonup> real) \<Rightarrow>
   (string \<times> real \<rightharpoonup> real) \<times> (string \<times> real \<rightharpoonup> real)" where
  "bucketLoop m i [] c pv = pv"
| "bucketLoop m i (k # ks) c (prev, vec) =
     (let c' = c + index0 (map_of m) k;
          le = parseBucketUpperBoundMs k;
          vec1 = WithLabelValues vec (i, le);
          delta = c' - index0 prev (i, le);
          vec2 = (if delta > 0 then Add vec1 (i, le) delta else vec1)
      in bucketLoop m i ks c' (prev((i, le) \<mapsto> c'), vec2))"

text \<open>
  The cumulative sequence a response determines: the sorted keys with their bound and the
  running sum of the counts.
\<close>

fun cumulativeFrom :: "(string \<times> real) list \<Rightarrow> real \<Rightarrow> string list \<Rightarrow> (real \<times> real) list" where
  "cumulativeFrom m c [] = []"
| "cumulativeFrom m c (k # ks) =
     (parseBucketUpperBoundMs k, c + index0 (map_of m) k)
       # cumulativeFrom m (c + index0 (map_of m) k) ks"

definition cumulativeSequence :: "(string \<times> real) list \<Rightarrow> (real \<times> real) list" where
  "cumulativeSequence m = cumulativeFrom m 0 (sortedKeys m)"

section \<open>One collection cycle and the ticker loop\<close>

text \<open>
  What the device answers in one cycle. \<open>authenticate\<close> returns a token or an error.
  A fetch with \<open>sendApiRequest\<close> followed by \<open>json.Unmarshal\<close> has three outcomes: the
  request fails, the body does not parse, or it parses to a document.
\<close>

datatype 'a fetched = RequestFailed | Unparsable | Parsed 'a

record responses =
  authResponse :: "string option"
  histogramResponse :: "Histogram fetched"
  crbResponse :: "(string \<times> dyn) list fetched"

text \<open>
  The variables of one instance's goroutine: the session (\<open>token\<close>, \<open>authenticated\<close>), the
  overlap flag \<open>running\<close>, and the process-wide registry. \<open>inFlight\<close> is not a variable of the
  program: it counts the cycle goroutines that have been started and have not returned.
\<close>

record collector =
  vplcName :: string
  token :: string
  authenticated :: bool
  running :: int
  inFlight :: nat
  metrics :: registry

text \<open>
  The first step of the cycle goroutine (lines 392 to 402): authenticate unless the session
  is valid. \<open>Inl\<close> is the early return after a failed login (\<open>authenticate\<close> returns the
  empty token with its error), \<open>Inr\<close> the state with which the cycle goes on.
\<close>

definition ensureAuthenticated :: "responses \<Rightarrow> collector \<Rightarrow> collector + collector" where
  "ensureAuthenticated r c =
     (if \<not> authenticated c \<or> token c = []
      then (case authResponse r of
              None \<Rightarrow> Inl (c\<lparr>token := [], authenticated := False\<rparr>)
            | Some t \<Rightarrow> Inr (c\<lparr>token := t, authenticated := True\<rparr>))
      else Inr c)"

text \<open>
  The body of the cycle goroutine (lines 392 to 434). No call in it can panic on the
  values of this model, so the deferred \<open>recover\<close> is never taken.
\<close>

definition cycleBody :: "responses \<Rightarrow> collector \<Rightarrow> collector" where
  "cycleBody r c =
     (case ensureAuthenticated r c of
        Inl c1 \<Rightarrow> c1
      | Inr c1 \<Rightarrow>
          (case histogramResponse r of
             RequestFailed \<Rightarrow> c1\<lparr>authenticated := False, token := []\<rparr>
           | h \<Rightarrow>
               (let c2 = (case h of
                            Parsed hist \<Rightarrow>
                              c1\<lparr>metrics := updateHistograms hist (vplcName c1) (metrics c1)\<rparr>
                          | _ \<Rightarrow> c1)
                in case crbResponse r of
                     RequestFailed \<Rightarrow> c2\<lparr>authenticated := False, token := []\<rparr>
                   | Unparsable \<Rightarrow> c2
                   | Parsed crb \<Rightarrow>
                       c2\<lparr>metrics := updateCRBMetrics crb (vplcName c2) (metrics c2)\<rparr>)))"

text \<open>
  The two halves of the registry: what the scalar update writes and what the histogram
  update writes. \<open>hasPerformanceMetrics\<close> is the test of line 187.
\<close>

definition scalarState ::
  "registry \<Rightarrow> (string \<rightharpoonup> (string \<rightharpoonup> real)) \<times> (string \<times> string \<rightharpoonup> real) \<times> (string \<times> string \<rightharpoonup> real)" where
  "scalarState st = (previousCounterValues st, crbMetrics st, crbGauges st)"

definition bucketState ::
  "registry \<Rightarrow> (string \<times> real \<rightharpoonup> real) \<times> (string \<times> real \<rightharpoonup> real)
     \<times> (string \<times> real \<rightharpoonup> real) \<times> (string \<times> real \<rightharpoonup> real)" where
  "bucketState st =
     (prevWriteBuckets st, prevCycleBuckets st, writeDurationBuckets st, cycleExtensionBuckets st)"

definition hasPerformanceMetrics :: "(string \<times> dyn) list \<Rightarrow> bool" where
  "hasPerformanceMetrics data =
     (case map_of data ''performanceMetrics'' of Some (MapV _) \<Rightarrow> True | _ \<Rightarrow> False)"

text \<open>
  The ticker loop and its goroutines as events of one instance. \<open>Tick\<close> is one iteration
  of \<open>for range ticker.C\<close>: the compare-and-swap on \<open>running\<close>, then either \<open>continue\<close> or
  the start of a cycle goroutine. \<open>CycleReturns r\<close> is a started goroutine running its body
  against the answers \<open>r\<close> and executing the deferred \<open>atomic.StoreInt32(&running, 0)\<close>; it
  can only happen while a goroutine is in flight.
\<close>

datatype event = Tick | CycleReturns responses

fun step :: "collector \<Rightarrow> event \<Rightarrow> collector" where
  "step c Tick =
     (if running c = 0 then c\<lparr>running := 1, inFlight := inFlight c + 1\<rparr> else c)"
| "step c (CycleReturns r) =
     (if inFlight c = 0 then c
      else (cycleBody r c)\<lparr>running := 0, inFlight := inFlight c - 1\<rparr>)"

definition initialCollector :: "string \<Rightarrow> registry \<Rightarrow> collector" where
  "initialCollector name reg =
     \<lparr>vplcName = name, token = [], authenticated = False, running = 0, inFlight = 0,
      metrics = reg\<rparr>"

definition run :: "collector \<Rightarrow> event list \<Rightarrow> collector" where
  "run c events = foldl step c events"

section \<open>Counter keys and sequences of updates\<close>

text \<open>
  What the registry holds for the key (exported name, instance): the stored last raw value,
  read as the code reads it (a missing entry is 0), and the exported value of the series.
\<close>

definition lastRaw :: "registry \<Rightarrow> string \<Rightarrow> string \<Rightarrow> real" where
  "lastRaw st promName vplc_instance =
     index0 (case previousCounterValues st promName of None \<Rightarrow> Map.empty | Some m \<Rightarrow> m)
       vplc_instance"

definition exported :: "registry \<Rightarrow> string \<Rightarrow> string \<Rightarrow> real" where
  "exported st promName vplc_instance = seriesValue (crbMetrics st) (promName, vplc_instance)"

text \<open>
  A sequence of calls of \<open>updateCRBMetrics\<close>, each with its document and instance name, and
  the raw readings the calls deliver for a descriptor and an instance: a call delivers one
  when it is for that instance, its document has the \<open>performanceMetrics\<close> map, and the
  descriptor's path yields a number there.
\<close>

definition runUpdates :: "registry \<Rightarrow> ((string \<times> dyn) list \<times> string) list \<Rightarrow> registry" where
  "runUpdates st calls = foldl (\<lambda>st (data, i). updateCRBMetrics data i st) st calls"

definition reading :: "metricDesc \<Rightarrow> string \<Rightarrow> (string \<times> dyn) list \<times> string \<Rightarrow> real option" where
  "reading desc vplc_instance call =
     (if snd call = vplc_instance
      then (case map_of (fst call) ''performanceMetrics'' of
              Some (MapV performanceData) \<Rightarrow> getNestedValue performanceData (JSONName desc)
            | _ \<Rightarrow> None)
      else None)"

definition readings :: "metricDesc \<Rightarrow> string \<Rightarrow> ((string \<times> dyn) list \<times> string) list \<Rightarrow> real list" where
  "readings desc vplc_instance calls = List.map_filter (reading desc vplc_instance) calls"

text \<open>
  The sum of the non-negative deltas of a sequence of readings, starting from the
  baseline \<open>prev\<close>: \<open>deltaSum r0 [r1, r2, \<dots>]\<close> is the sum over \<open>i \<ge> 1\<close> of
  \<open>max 0 (r i - r (i - 1))\<close>.
\<close>

fun deltaSum :: "real \<Rightarrow> real list \<Rightarrow> real" where
  "deltaSum prev [] = 0"
| "deltaSum prev (r # rs) = max 0 (r - prev) + deltaSum r rs"

section \<open>Bucket keys, cumulative counts and sequences of responses\<close>

text \<open>
  The rule of the specification for one boundary of a response: store the cumulative count
  \<open>c\<close> for the boundary, and add to the bucket series the delta against the stored previous
  value when that delta is positive, nothing otherwise.
\<close>

definition applyCumulative ::
  "string \<Rightarrow> (string \<times> real \<rightharpoonup> real) \<times> (string \<times> real \<rightharpoonup> real) \<Rightarrow> real \<times> real \<Rightarrow>
   (string \<times> real \<rightharpoonup> real) \<times> (string \<times> real \<rightharpoonup> real)" where
  "applyCumulative i pv lc =
     (case pv of (prev, vec) \<Rightarrow> case lc of (le, c) \<Rightarrow>
        (prev((i, le) \<mapsto> c),
         vec((i, le) \<mapsto> index0 vec (i, le) + max 0 (c - index0 prev (i, le)))))"

text \<open>
  The cumulative counts that a cumulative sequence lists for the boundary \<open>b\<close>, in order
  (more than one when several labels of the response parse to the same bound).
\<close>

definition cumsAt :: "(real \<times> real) list \<Rightarrow> real \<Rightarrow> real list" where
  "cumsAt L b = map snd (filter (\<lambda>lc. fst lc = b) L)"

text \<open>
  The bucket series and the map of a response that belong to a histogram kind, the kind
  being the string that \<open>getPreviousBucketValue\<close> takes.
\<close>

definition bucketSeries :: "string \<Rightarrow> registry \<Rightarrow> (string \<times> real \<rightharpoonup> real)" where
  "bucketSeries kind st =
     (if kind = ''write'' then writeDurationBuckets st else cycleExtensionBuckets st)"

definition responseBuckets :: "string \<Rightarrow> Histogram \<Rightarrow> (string \<times> real) list" where
  "responseBuckets kind hist =
     (if kind = ''write'' then WriteDurationHistogram hist
      else CycleExtensionDurationHistogram hist)"

text \<open>
  The cumulative count of a response at a bound: the sum of the counts of all labels whose
  bound is not above it. \<open>nonNegative\<close>: no count of the response is negative.
\<close>

definition cumulativeAt :: "(string \<times> real) list \<Rightarrow> real \<Rightarrow> real" where
  "cumulativeAt m b =
     sum_list (map snd (filter (\<lambda>lc. parseBucketUpperBoundMs (fst lc) \<le> b) m))"

definition nonNegative :: "(string \<times> real) list \<Rightarrow> bool" where
  "nonNegative m = list_all (\<lambda>lc. 0 \<le> snd lc) m"

text \<open>
  The map of stored previous values of a kind.
\<close>

definition prevBuckets :: "string \<Rightarrow> registry \<Rightarrow> (string \<times> real \<rightharpoonup> real)" where
  "prevBuckets kind st = (if kind = ''write'' then prevWriteBuckets st else prevCycleBuckets st)"

text \<open>
  A sequence of calls of \<open>updateHistograms\<close>, each with its document and instance name.
\<close>

definition runHistograms :: "registry \<Rightarrow> (Histogram \<times> string) list \<Rightarrow> registry" where
  "runHistograms st calls = foldl (\<lambda>st (hist, i). updateHistograms hist i st) st calls"

text \<open>
  A response that shows no reset at the source, seen from the state it is applied to: its
  labels parse to distinct bounds, no count is negative, and at no boundary is its cumulative
  count below the value stored for that boundary. \<open>steady\<close>: every response of the
  sequence that is for the instance \<open>i\<close> is such a response when it is applied.
\<close>

definition steadyResponse :: "string \<Rightarrow> string \<Rightarrow> registry \<Rightarrow> Histogram \<Rightarrow> bool" where
  "steadyResponse kind i st hist =
     (let m = responseBuckets kind hist in
      distinct (map (\<lambda>lc. parseBucketUpperBoundMs (fst lc)) m) \<and> nonNegative m \<and>
      list_all (\<lambda>lc. getPreviousBucketValue kind (i, parseBucketUpperBoundMs (fst lc)) st
                       \<le> cumulativeAt m (parseBucketUpperBoundMs (fst lc))) m)"

fun steady :: "string \<Rightarrow> string \<Rightarrow> registry \<Rightarrow> (Histogram \<times> string) list \<Rightarrow> bool" where
  "steady kind i st [] = True"
| "steady kind i st (call # calls) =
     ((snd call = i \<longrightarrow> steadyResponse kind i st (fst call))
      \<and> steady kind i (updateHistograms (fst call) (snd call) st) calls)"

section \<open>Properties of the bucket-label parser\<close>

lemma numTok_cases:
  assumes "numTok t"
  obtains (int) "t \<noteq> []" "list_all isDigit t"
  | (frac) d1 d2 where "t = d1 @ CHR ''.'' # d2" "d1 \<noteq> []" "list_all isDigit d1"
      "d2 \<noteq> []" "list_all isDigit d2"
proof (cases "dropWhile isDigit t = []")
  case True
  then have "takeWhile isDigit t = t"
    by (metis append_Nil2 takeWhile_dropWhile_id)
  with assms have "t \<noteq> []" "list_all isDigit t"
    by (auto simp: numTok_def Let_def list_all_iff dest: set_takeWhileD)
  then show ?thesis by (rule int)
next
  case False
  let ?d1 = "takeWhile isDigit t" and ?r = "dropWhile isDigit t"
  from False assms have r: "hd ?r = CHR ''.''" "tl ?r \<noteq> []" "list_all isDigit (tl ?r)" "?d1 \<noteq> []"
    by (auto simp: numTok_def Let_def)
  from False r(1) have "?r = CHR ''.'' # tl ?r" by (cases ?r) auto
  then have t: "t = ?d1 @ CHR ''.'' # tl ?r" by (metis takeWhile_dropWhile_id)
  have d: "list_all isDigit ?d1" by (auto simp: list_all_iff dest: set_takeWhileD)
  show ?thesis using frac [OF t r(4) d r(2) r(3)] .
qed

lemma not_digit_simps [simp]:
  "\<not> isDigit CHR ''.''" "\<not> isDigit CHR ''+''" "\<not> isDigit CHR ''m''" "\<not> isDigit CHR ''s''"
  "\<not> isDigit CHR ''-''"
  by (simp_all add: isDigit_def)

lemma takeWhile_digits_app:
  "list_all isDigit ds \<Longrightarrow> takeWhile isDigit (ds @ r) = ds @ takeWhile isDigit r"
  by (induction ds) auto

lemma dropWhile_digits_app:
  "list_all isDigit ds \<Longrightarrow> dropWhile isDigit (ds @ r) = dropWhile isDigit r"
  by (induction ds) auto

lemma matchAt_int:
  assumes "t \<noteq> []" "list_all isDigit t"
  shows "matchAt (t @ ''ms'') = Some (t, [], [])"
    and "matchAt (t @ ''+ms'') = Some (t, [], ''+'')"
  using assms
  by (simp_all add: matchAt_def Let_def takeWhile_digits_app dropWhile_digits_app)

lemma matchAt_frac:
  assumes "d1 \<noteq> []" "list_all isDigit d1" "d2 \<noteq> []" "list_all isDigit d2"
  shows "matchAt (d1 @ CHR ''.'' # d2 @ ''ms'') = Some (d1 @ CHR ''.'' # d2, CHR ''.'' # d2, [])"
    and "matchAt (d1 @ CHR ''.'' # d2 @ ''+ms'') = Some (d1 @ CHR ''.'' # d2, CHR ''.'' # d2, ''+'')"
  using assms
  by (simp_all add: matchAt_def Let_def takeWhile_digits_app dropWhile_digits_app)

lemma takeWhile_digits_all: "list_all isDigit t \<Longrightarrow> takeWhile isDigit t = t"
  by (induction t) auto

lemma dropWhile_digits_all: "list_all isDigit t \<Longrightarrow> dropWhile isDigit t = []"
  by (induction t) auto

lemma numTok_intI: "t \<noteq> [] \<Longrightarrow> list_all isDigit t \<Longrightarrow> numTok t"
  by (simp add: numTok_def Let_def takeWhile_digits_all dropWhile_digits_all)

lemma numTok_fracI:
  "d1 \<noteq> [] \<Longrightarrow> list_all isDigit d1 \<Longrightarrow> d2 \<noteq> [] \<Longrightarrow> list_all isDigit d2
   \<Longrightarrow> numTok (d1 @ CHR ''.'' # d2)"
  by (simp add: numTok_def Let_def takeWhile_digits_app dropWhile_digits_app)

lemma matchAt_numTok:
  assumes "numTok t"
  shows "matchAt (t @ ''ms'') = Some (t, dropWhile isDigit t, [])"
    and "matchAt (t @ ''+ms'') = Some (t, dropWhile isDigit t, ''+'')"
proof -
  show "matchAt (t @ ''ms'') = Some (t, dropWhile isDigit t, [])"
    using assms
  proof (cases t rule: numTok_cases)
    case int
    then show ?thesis
      using matchAt_int(1) [of t] by (simp add: dropWhile_digits_all)
  next
    case (frac d1 d2)
    then show ?thesis
      using matchAt_frac(1) [of d1 d2] dropWhile_digits_app [of d1 "CHR ''.'' # d2"] by simp
  qed
  show "matchAt (t @ ''+ms'') = Some (t, dropWhile isDigit t, ''+'')"
    using assms
  proof (cases t rule: numTok_cases)
    case int
    then show ?thesis
      using matchAt_int(2) [of t] by (simp add: dropWhile_digits_all)
  next
    case (frac d1 d2)
    then show ?thesis
      using matchAt_frac(2) [of d1 d2] dropWhile_digits_app [of d1 "CHR ''.'' # d2"] by simp
  qed
qed

lemma list_all_takeWhile: "list_all P (takeWhile P xs)"
  by (induction xs) auto

lemma matchAt_SomeD:
  assumes "matchAt s = Some (g1, g2, g3)"
  shows "s = g1 @ g3 @ ''ms''" and "g3 = [] \<or> g3 = ''+''" and "numTok g1"
    and "g2 = dropWhile isDigit g1"
proof -
  let ?d1 = "takeWhile isDigit s" and ?r1 = "dropWhile isDigit s"
  from assms have d1: "?d1 \<noteq> []"
    by (auto simp: matchAt_def Let_def split: if_splits)
  have s: "s = ?d1 @ ?r1" by simp
  have dd: "list_all isDigit ?d1" by (rule list_all_takeWhile)
  define fr where "fr = (case ?r1 of [] \<Rightarrow> False
     | c # t \<Rightarrow> c = CHR ''.'' \<and> takeWhile isDigit t \<noteq> [])"
  have all: "s = g1 @ g3 @ ''ms'' \<and> (g3 = [] \<or> g3 = ''+'') \<and> numTok g1
        \<and> g2 = dropWhile isDigit g1"
  proof (cases fr)
    case True
    then obtain t where r1: "?r1 = CHR ''.'' # t" and t: "takeWhile isDigit t \<noteq> []"
      by (auto simp: fr_def split: list.splits)
    let ?d2 = "takeWhile isDigit t" and ?r2 = "dropWhile isDigit t"
    have d2: "list_all isDigit ?d2" by (rule list_all_takeWhile)
    from assms d1 r1 t have g: "g1 = ?d1 @ CHR ''.'' # ?d2" "g2 = CHR ''.'' # ?d2"
      "?r2 = g3 @ ''ms''" "g3 = [] \<or> g3 = ''+''"
      by (auto simp: matchAt_def Let_def split: if_splits list.splits)
    have "s = ?d1 @ CHR ''.'' # ?d2 @ ?r2"
      using s r1 by (metis takeWhile_dropWhile_id)
    with g have "s = g1 @ g3 @ ''ms''" by simp
    moreover have "numTok g1" unfolding g(1) using d1 dd t d2 by (rule numTok_fracI)
    moreover have "g2 = dropWhile isDigit g1"
      unfolding g using dd by (simp add: dropWhile_digits_app)
    ultimately show ?thesis
      using g(4) by simp
  next
    case False
    from assms d1 False have g: "g1 = ?d1" "g2 = []" "?r1 = g3 @ ''ms''" "g3 = [] \<or> g3 = ''+''"
      by (auto simp: matchAt_def Let_def fr_def split: if_splits list.splits)
    have "s = g1 @ g3 @ ''ms''" using s g by simp
    moreover have "numTok g1" unfolding g(1) using d1 dd by (rule numTok_intI)
    moreover have "g2 = dropWhile isDigit g1"
      unfolding g using dd by (simp add: dropWhile_digits_all)
    ultimately show ?thesis
      using g(4) by simp
  qed
  then show "s = g1 @ g3 @ ''ms''" and "g3 = [] \<or> g3 = ''+''" and "numTok g1"
    and "g2 = dropWhile isDigit g1"
    by simp_all
qed

lemma numTok_chars:
  assumes "numTok t" "c \<in> set t"
  shows "isDigit c \<or> c = CHR ''.''"
  using assms by (cases t rule: numTok_cases) (auto simp: list_all_iff)

lemma matchAt_minus:
  assumes "CHR ''-'' \<in> set s"
  shows "matchAt s = None"
proof (cases "matchAt s")
  case None
  then show ?thesis .
next
  case (Some m)
  obtain g1 g2 g3 where m: "m = (g1, g2, g3)" by (cases m)
  from matchAt_SomeD [OF Some [unfolded m]]
  have s: "s = g1 @ g3 @ ''ms''" and g3: "g3 = [] \<or> g3 = ''+''" and nt: "numTok g1"
    by simp_all
  from assms s g3 have "CHR ''-'' \<in> set g1" by auto
  from numTok_chars [OF nt this] have False by simp
  then show ?thesis ..
qed

lemma FindStringSubmatch_minus:
  "FindStringSubmatch (pre @ CHR ''-'' # t) = FindStringSubmatch t"
proof (induction pre)
  case Nil
  show ?case by (simp add: matchAt_minus)
next
  case (Cons c pre)
  have "matchAt (c # pre @ CHR ''-'' # t) = None" by (rule matchAt_minus) simp
  with Cons show ?case by simp
qed

lemma FindStringSubmatch_matchAt:
  "matchAt s = Some m \<Longrightarrow> FindStringSubmatch s = Some m"
  by (cases s) (simp_all add: matchAt_def)

lemma FindStringSubmatch_SomeD:
  "FindStringSubmatch s = Some m \<Longrightarrow> \<exists>pre t. s = pre @ t \<and> matchAt t = Some m"
proof (induction s)
  case Nil
  then show ?case by simp
next
  case (Cons c s)
  show ?case
  proof (cases "matchAt (c # s)")
    case (Some m')
    with Cons.prems have "matchAt (c # s) = Some m" by simp
    then show ?thesis by (metis append_Nil)
  next
    case None
    with Cons.prems have "FindStringSubmatch s = Some m" by simp
    from Cons.IH [OF this] obtain pre t where "s = pre @ t" "matchAt t = Some m" by blast
    then have "c # s = (c # pre) @ t \<and> matchAt t = Some m" by simp
    then show ?thesis by blast
  qed
qed

lemma parse_range:
  assumes "numTok hi"
  shows "parseBucketUpperBoundMs (lo @ ''-'' @ hi @ ''ms'') = ParseFloat hi"
proof -
  have "FindStringSubmatch (lo @ ''-'' @ hi @ ''ms'') = FindStringSubmatch (hi @ ''ms'')"
    using FindStringSubmatch_minus [of lo "hi @ ''ms''"] by simp
  also have "\<dots> = Some (hi, dropWhile isDigit hi, [])"
    using matchAt_numTok(1) [OF assms] by (rule FindStringSubmatch_matchAt)
  finally show ?thesis by (simp add: parseBucketUpperBoundMs_def)
qed

lemma parse_open:
  assumes "numTok low"
  shows "parseBucketUpperBoundMs (low @ ''+ms'') = 1000000000"
proof -
  have "FindStringSubmatch (low @ ''+ms'') = Some (low, dropWhile isDigit low, ''+'')"
    using matchAt_numTok(2) [OF assms] by (rule FindStringSubmatch_matchAt)
  then show ?thesis by (simp add: parseBucketUpperBoundMs_def)
qed

lemma parse_nomatch:
  assumes "\<not> (\<exists>pre tok sg. label = pre @ tok @ sg @ ''ms'' \<and> numTok tok \<and> (sg = [] \<or> sg = ''+''))"
  shows "parseBucketUpperBoundMs label = 0"
proof (cases "FindStringSubmatch label")
  case None
  then show ?thesis by (simp add: parseBucketUpperBoundMs_def)
next
  case (Some m)
  obtain g1 g2 g3 where m: "m = (g1, g2, g3)" by (cases m)
  from FindStringSubmatch_SomeD [OF Some] obtain pre t
    where l: "label = pre @ t" and t: "matchAt t = Some (g1, g2, g3)" unfolding m by blast
  from matchAt_SomeD [OF t] l
  have "label = pre @ g1 @ g3 @ ''ms'' \<and> numTok g1 \<and> (g3 = [] \<or> g3 = ''+'')" by simp
  with assms show ?thesis by blast
qed

lemma parse_no_unit:
  assumes "\<not> (\<exists>p. label = p @ ''ms'')"
  shows "parseBucketUpperBoundMs label = 0"
proof (rule parse_nomatch, rule notI)
  assume "\<exists>pre tok sg. label = pre @ tok @ sg @ ''ms'' \<and> numTok tok \<and> (sg = [] \<or> sg = ''+'')"
  then obtain pre tok sg where "label = (pre @ tok @ sg) @ ''ms''" by auto
  with assms show False by blast
qed

lemma parse_lower_ignored:
  "parseBucketUpperBoundMs (lo @ ''-'' @ rest) = parseBucketUpperBoundMs rest"
  using FindStringSubmatch_minus [of lo rest] by (simp add: parseBucketUpperBoundMs_def)

lemma ends_in_ms_false: "\<not> (\<exists>p. ''0.0-1.0us'' = p @ ''ms'')"
proof
  assume "\<exists>p. ''0.0-1.0us'' = p @ ''ms''"
  then obtain p where "''0.0-1.0us'' = p @ ''ms''" ..
  then have "rev ''0.0-1.0us'' = rev (p @ ''ms'')" by (rule arg_cong)
  then show False by simp
qed

lemmas parse_eval =
  parseBucketUpperBoundMs_def matchAt_def isDigit_def ParseFloat_def decNat_def digitVal_def
  numTok_def

text \<open>
  Claim C5 (as amended). A range label \<open>lo-hi\<close>\<^verbatim>\<open>ms\<close> is mapped to the value of its trailing
  numeric token \<open>hi\<close>; a label made of a numeric token, \<open>+\<close> and \<^verbatim>\<open>ms\<close> is mapped to the
  fixed sentinel \<open>1e9\<close>, which is strictly greater than the bound of every range label whose
  trailing token is below \<open>1e9\<close>; a label that does not match the pattern, that is, has no
  numeric token (optionally followed by \<open>+\<close>) directly before a final \<^verbatim>\<open>ms\<close>, is
  mapped to 0.
\<close>

theorem parseBucketUpperBoundMs_labels:
  "(numTok hi \<longrightarrow> parseBucketUpperBoundMs (lo @ ''-'' @ hi @ ''ms'') = ParseFloat hi)
   \<and> (numTok low \<longrightarrow> parseBucketUpperBoundMs (low @ ''+ms'') = 1000000000)
   \<and> (numTok low \<and> numTok hi \<and> ParseFloat hi < 1000000000 \<longrightarrow>
        parseBucketUpperBoundMs (lo @ ''-'' @ hi @ ''ms'') < parseBucketUpperBoundMs (low @ ''+ms''))
   \<and> (\<not> (\<exists>pre tok sg. label = pre @ tok @ sg @ ''ms'' \<and> numTok tok \<and> (sg = [] \<or> sg = ''+''))
        \<longrightarrow> parseBucketUpperBoundMs label = 0)
   \<and> parseBucketUpperBoundMs ''0.0-1.0ms'' = 1
   \<and> parseBucketUpperBoundMs ''20.0+ms'' = 1000000000"
proof -
  have ex1: "parseBucketUpperBoundMs ''0.0-1.0ms'' = 1" by (simp add: parse_eval)
  have ex2: "parseBucketUpperBoundMs ''20.0+ms'' = 1000000000" by (simp add: parse_eval)
  show ?thesis
    using parse_range [of hi lo] parse_open [of low] parse_nomatch [of label] ex1 ex2
    by auto
qed

theorem parseBucketUpperBoundMs_labels_witness:
  "numTok ''1.0'' \<and> numTok ''20.0'' \<and> ParseFloat ''1.0'' < 1000000000
   \<and> \<not> (\<exists>pre tok sg. ''fast'' = pre @ tok @ sg @ ''ms'' \<and> numTok tok \<and> (sg = [] \<or> sg = ''+''))
   \<and> parseBucketUpperBoundMs ''0.0-1.0ms'' = ParseFloat ''1.0''
   \<and> parseBucketUpperBoundMs ''20.0+ms'' = 1000000000
   \<and> parseBucketUpperBoundMs ''0.0-1.0ms'' < parseBucketUpperBoundMs ''20.0+ms''
   \<and> parseBucketUpperBoundMs ''fast'' = 0"
proof -
  have n1: "numTok ''1.0''" and n2: "numTok ''20.0''" by (simp_all add: parse_eval)
  have lt: "ParseFloat ''1.0'' < 1000000000" by (simp add: parse_eval)
  have nm: "\<not> (\<exists>pre tok sg. ''fast'' = pre @ tok @ sg @ ''ms'' \<and> numTok tok \<and> (sg = [] \<or> sg = ''+''))"
  proof
    assume "\<exists>pre tok sg. ''fast'' = pre @ tok @ sg @ ''ms'' \<and> numTok tok \<and> (sg = [] \<or> sg = ''+'')"
    then obtain pre tok sg where "''fast'' = pre @ tok @ sg @ ''ms''" by blast
    then have "rev ''fast'' = rev (pre @ tok @ sg @ ''ms'')" by (rule arg_cong)
    then show False by simp
  qed
  show ?thesis
    using parseBucketUpperBoundMs_labels [of "''1.0''" "''0.0''" "''20.0''" "''fast''"] n1 n2 lt nm
    by simp
qed

text \<open>
  The claim as stated fails: the sentinel is not above every finite bound a label can
  carry. The range label below parses to \<open>2e9\<close>.
\<close>

theorem parseBucketUpperBoundMs_sentinel_counterexample:
  "parseBucketUpperBoundMs ''20.0+ms'' < parseBucketUpperBoundMs ''0.0-2000000000.0ms''"
  by (simp add: parse_eval)

text \<open>
  Claim C9. A label that does not end in \<^verbatim>\<open>ms\<close> is mapped to 0, also a range label in
  another unit; and whatever precedes the last \<open>-\<close> of a label is ignored, so the lower
  bound of a range label has no influence: \<open>5.0-1.0ms\<close> and \<open>0.0-1.0ms\<close> both give 1.
\<close>

theorem parseBucketUpperBoundMs_trailing_token_only:
  "(\<not> (\<exists>p. label = p @ ''ms'') \<longrightarrow> parseBucketUpperBoundMs label = 0)
   \<and> parseBucketUpperBoundMs (lo @ ''-'' @ rest) = parseBucketUpperBoundMs rest
   \<and> parseBucketUpperBoundMs ''5.0-1.0ms'' = 1
   \<and> parseBucketUpperBoundMs ''0.0-1.0ms'' = 1
   \<and> parseBucketUpperBoundMs ''0.0-1.0us'' = 0"
proof -
  have ex1: "parseBucketUpperBoundMs ''5.0-1.0ms'' = 1" by (simp add: parse_eval)
  have ex2: "parseBucketUpperBoundMs ''0.0-1.0ms'' = 1" by (simp add: parse_eval)
  have ex3: "parseBucketUpperBoundMs ''0.0-1.0us'' = 0" by (simp add: parse_eval)
  show ?thesis
    using parse_no_unit [of label] parse_lower_ignored [of lo rest] ex1 ex2 ex3 by blast
qed

theorem parseBucketUpperBoundMs_trailing_token_only_witness:
  "\<not> (\<exists>p. ''0.0-1.0us'' = p @ ''ms'')
   \<and> parseBucketUpperBoundMs ''0.0-1.0us'' = 0
   \<and> parseBucketUpperBoundMs (''5.0'' @ ''-'' @ ''1.0ms'') = parseBucketUpperBoundMs ''1.0ms''"
  using parseBucketUpperBoundMs_trailing_token_only [of "''0.0-1.0us''" "''5.0''" "''1.0ms''"]
    ends_in_ms_false
  by blast

section \<open>Properties of \<open>getNestedValue\<close>\<close>

lemma Split_nonempty: "Split s sep \<noteq> []"
  by (induction s) (auto split: list.splits)

lemma walk_resolve:
  "segs \<noteq> [] \<Longrightarrow>
   walk v segs = (case resolve v segs of None \<Rightarrow> None | Some t \<Rightarrow> toFloat64 t)"
proof (induction segs arbitrary: v)
  case Nil
  then show ?case by simp
next
  case (Cons seg segs)
  show ?case
  proof (cases segs)
    case Nil
    then show ?thesis by (simp split: dyn.splits option.splits)
  next
    case (Cons a list)
    then have "segs \<noteq> []" by simp
    from Cons.IH [OF this] show ?thesis
      using \<open>segs \<noteq> []\<close> by (simp split: dyn.splits option.splits)
  qed
qed

lemma resolve_append:
  "resolve v (pre @ rest) = (case resolve v pre of None \<Rightarrow> None | Some w \<Rightarrow> resolve w rest)"
  by (induction pre arbitrary: v) (auto split: dyn.splits option.splits)

lemma getNestedValue_extractValue:
  "getNestedValue data path = extractValue data (Split path CHR ''/'')"
  by (simp add: getNestedValue_def extractValue_def Split_nonempty walk_resolve)

lemma toFloat64_SomeD:
  "toFloat64 t = Some x \<Longrightarrow>
   t = Float64V x \<or> (\<exists>i. t = IntV i \<and> x = real_of_int i)
   \<or> (\<exists>i. t = Int64V i \<and> x = real_of_int i) \<or> t = NumberV (Some x)"
  by (cases t) auto

text \<open>
  Claim C7 (as amended). \<open>getNestedValue\<close> walks the segments of the split path through
  nested maps and coerces the value it reaches: it is absent whenever a segment is missing
  from the current map or the current value is not a map, and it returns a number only when
  the value reached is a \<open>float64\<close>, an \<open>int\<close>, an \<open>int64\<close> or a \<open>json.Number\<close> that
  converts. The empty path is the path of one empty segment name: it is looked up in the
  top-level map like any other name.
\<close>

theorem getNestedValue_absent_or_numeric:
  "getNestedValue data path =
     (case resolve (MapV data) (Split path CHR ''/'') of None \<Rightarrow> None | Some t \<Rightarrow> toFloat64 t)
   \<and> (Split path CHR ''/'' = pre @ seg # rest \<and> resolve (MapV data) pre = Some cur
        \<and> ((\<forall>m. cur \<noteq> MapV m) \<or> (\<exists>m. cur = MapV m \<and> map_of m seg = None))
        \<longrightarrow> getNestedValue data path = None)
   \<and> (getNestedValue data path = Some x \<longrightarrow>
        (\<exists>t. resolve (MapV data) (Split path CHR ''/'') = Some t
           \<and> (t = Float64V x \<or> (\<exists>i. t = IntV i \<and> x = real_of_int i)
               \<or> (\<exists>i. t = Int64V i \<and> x = real_of_int i) \<or> t = NumberV (Some x))))
   \<and> (path = [] \<longrightarrow>
        getNestedValue data path = (case map_of data [] of None \<Rightarrow> None | Some t \<Rightarrow> toFloat64 t))"
proof -
  let ?segs = "Split path CHR ''/''"
  have eq: "getNestedValue data path =
     (case resolve (MapV data) ?segs of None \<Rightarrow> None | Some t \<Rightarrow> toFloat64 t)"
    by (simp add: getNestedValue_def Split_nonempty walk_resolve)
  have miss: "getNestedValue data path = None"
    if "?segs = pre @ seg # rest" "resolve (MapV data) pre = Some cur"
      "(\<forall>m. cur \<noteq> MapV m) \<or> (\<exists>m. cur = MapV m \<and> map_of m seg = None)"
  proof -
    have "resolve cur (seg # rest) = None"
      using that(3) by (cases cur) auto
    then have "resolve (MapV data) ?segs = None"
      using that(1,2) by (simp add: resolve_append)
    then show ?thesis by (simp add: eq)
  qed
  have num: "\<exists>t. resolve (MapV data) ?segs = Some t
           \<and> (t = Float64V x \<or> (\<exists>i. t = IntV i \<and> x = real_of_int i)
               \<or> (\<exists>i. t = Int64V i \<and> x = real_of_int i) \<or> t = NumberV (Some x))"
    if "getNestedValue data path = Some x"
  proof -
    from that eq obtain t where t: "resolve (MapV data) ?segs = Some t" "toFloat64 t = Some x"
      by (auto split: option.splits)
    from toFloat64_SomeD [OF t(2)] t(1) show ?thesis by simp
  qed
  have emp: "getNestedValue data path = (case map_of data [] of None \<Rightarrow> None | Some t \<Rightarrow> toFloat64 t)"
    if "path = []"
    using that by (simp add: getNestedValue_def split: option.splits)
  from eq miss num emp show ?thesis by blast
qed

theorem getNestedValue_absent_or_numeric_witness:
  "Split ''cycleDelay/minNs'' CHR ''/'' = [''cycleDelay''] @ ''minNs'' # []
   \<and> resolve (MapV [(''cycleDelay'', MapV [(''totalNs'', Float64V 7)])]) [''cycleDelay'']
       = Some (MapV [(''totalNs'', Float64V 7)])
   \<and> map_of [(''totalNs'', Float64V 7)] ''minNs'' = None
   \<and> getNestedValue [(''cycleDelay'', MapV [(''totalNs'', Float64V 7)])] ''cycleDelay/minNs'' = None
   \<and> getNestedValue [(''cycleDelay'', MapV [(''totalNs'', Float64V 7)])] ''cycleDelay/totalNs'' = Some 7
   \<and> resolve (MapV [(''cycleDelay'', MapV [(''totalNs'', Float64V 7)])])
        (Split ''cycleDelay/totalNs'' CHR ''/'') = Some (Float64V 7)
   \<and> getNestedValue [(''cycleDelay'', StrV ''x'')] [] = None"
  using getNestedValue_absent_or_numeric
    [of "[(''cycleDelay'', MapV [(''totalNs'', Float64V 7)])]" "''cycleDelay/minNs''"
        "[''cycleDelay'']" "''minNs''" "[]" "MapV [(''totalNs'', Float64V 7)]" 0]
    getNestedValue_absent_or_numeric
    [of "[(''cycleDelay'', MapV [(''totalNs'', Float64V 7)])]" "''cycleDelay/totalNs''"
        "[]" "[]" "[]" "NilV" 7]
    getNestedValue_absent_or_numeric
    [of "[(''cycleDelay'', StrV ''x'')]" "[]" "[]" "[]" "[]" "NilV" 0]
  by simp

text \<open>
  The claim as stated fails for the empty path: a document with a numeric entry under the
  empty name yields that entry.
\<close>

theorem getNestedValue_empty_path_counterexample:
  "getNestedValue [('''', Float64V 5)] '''' = Some 5"
  by (simp add: getNestedValue_def)

section \<open>Properties of the counter path of \<open>updateCRBMetrics\<close>\<close>

lemma index0_simps [simp]:
  "index0 Map.empty k = 0"
  "index0 (m(k \<mapsto> v)) k = v"
  "k' \<noteq> k \<Longrightarrow> index0 (m(k' \<mapsto> v)) k = index0 m k"
  by (simp_all add: index0_def)

lemma index0_WithLabelValues [simp]: "index0 (WithLabelValues vec k') k = index0 vec k"
  by (simp add: WithLabelValues_def index0_def split: option.splits)

lemma index0_Add:
  "index0 (Add vec k' d) k = (if k = k' then index0 vec k + d else index0 vec k)"
  by (simp add: Add_def)

lemma updateCounter_same:
  "lastRaw (updateCounter n i v st) n i = v"
  "exported (updateCounter n i v st) n i = exported st n i + max 0 (v - lastRaw st n i)"
  by (simp_all add: updateCounter_def lastRaw_def exported_def seriesValue_def Let_def index0_Add)

lemma updateCounter_other:
  assumes "(n', i') \<noteq> (n, i)"
  shows "lastRaw (updateCounter n' i' v st) n i = lastRaw st n i"
    and "exported (updateCounter n' i' v st) n i = exported st n i"
  using assms
  by (auto simp: updateCounter_def lastRaw_def exported_def seriesValue_def Let_def index0_Add
      split: option.splits)

lemma updateDesc_other:
  assumes "PromName d' \<noteq> n \<or> i' \<noteq> i \<or> Type d' = gauge"
  shows "lastRaw (updateDesc perf i' st d') n i = lastRaw st n i"
    and "exported (updateDesc perf i' st d') n i = exported st n i"
proof -
  have g: "lastRaw (st\<lparr>crbGauges := x\<rparr>) n i = lastRaw st n i"
    "exported (st\<lparr>crbGauges := x\<rparr>) n i = exported st n i" for x
    by (simp_all add: lastRaw_def exported_def)
  show "lastRaw (updateDesc perf i' st d') n i = lastRaw st n i"
    using assms
    by (cases "Type d'") (auto simp: updateDesc_def g updateCounter_other split: option.splits)
  show "exported (updateDesc perf i' st d') n i = exported st n i"
    using assms
    by (cases "Type d'") (auto simp: updateDesc_def g updateCounter_other split: option.splits)
qed

lemma updateDesc_same:
  assumes "Type d = counter"
  shows "lastRaw (updateDesc perf i st d) (PromName d) i =
           (case getNestedValue perf (JSONName d) of None \<Rightarrow> lastRaw st (PromName d) i | Some v \<Rightarrow> v)"
    and "exported (updateDesc perf i st d) (PromName d) i =
           exported st (PromName d) i +
           (case getNestedValue perf (JSONName d) of None \<Rightarrow> 0
            | Some v \<Rightarrow> max 0 (v - lastRaw st (PromName d) i))"
  using assms by (simp_all add: updateDesc_def updateCounter_same split: option.splits)

lemma foldl_updateDesc_other:
  assumes "n \<notin> PromName ` set ds \<or> i' \<noteq> i"
  shows "lastRaw (foldl (updateDesc perf i') st ds) n i = lastRaw st n i
       \<and> exported (foldl (updateDesc perf i') st ds) n i = exported st n i"
  using assms
proof (induction ds arbitrary: st)
  case Nil
  show ?case by simp
next
  case (Cons d' ds)
  from Cons.prems have o: "PromName d' \<noteq> n \<or> i' \<noteq> i \<or> Type d' = gauge" by auto
  from Cons.prems have "n \<notin> PromName ` set ds \<or> i' \<noteq> i" by auto
  from Cons.IH [OF this, of "updateDesc perf i' st d'"] updateDesc_other [OF o, of perf st]
  show ?case by simp
qed

lemma foldl_updateDesc_key:
  assumes "distinct (map PromName ds)" "d \<in> set ds" "Type d = counter"
  shows "lastRaw (foldl (updateDesc perf i) st ds) (PromName d) i =
           (case getNestedValue perf (JSONName d) of
              None \<Rightarrow> lastRaw st (PromName d) i | Some v \<Rightarrow> v)
       \<and> exported (foldl (updateDesc perf i) st ds) (PromName d) i =
           exported st (PromName d) i +
           (case getNestedValue perf (JSONName d) of
              None \<Rightarrow> 0 | Some v \<Rightarrow> max 0 (v - lastRaw st (PromName d) i))"
  using assms(1,2)
proof (induction ds arbitrary: st)
  case Nil
  then show ?case by simp
next
  case (Cons d' ds)
  show ?case
  proof (cases "d' = d")
    case True
    from Cons.prems(1) True have "PromName d \<notin> PromName ` set ds" by auto
    then have "PromName d \<notin> PromName ` set ds \<or> i \<noteq> i" by simp
    from foldl_updateDesc_other [OF this, of perf "updateDesc perf i st d"]
      updateDesc_same [OF assms(3), of perf i st] True
    show ?thesis by (simp split: option.splits)
  next
    case False
    with Cons.prems have d: "d \<in> set ds" and dist: "distinct (map PromName ds)"
      and ne: "PromName d' \<noteq> PromName d" by auto
    from ne have o: "PromName d' \<noteq> PromName d \<or> i \<noteq> i \<or> Type d' = gauge" by simp
    from Cons.IH [OF dist d, of "updateDesc perf i st d'"] updateDesc_other [OF o, of perf st]
    show ?thesis by (simp split: option.splits)
  qed
qed

lemma crbMetricDescs_distinct: "distinct (map PromName crbMetricDescs)"
  by (simp add: crbMetricDescs_def)

lemma updateCRBMetrics_key:
  assumes "d \<in> set crbMetricDescs" "Type d = counter"
  shows "lastRaw (updateCRBMetrics data i' st) (PromName d) i =
           (case reading d i (data, i') of None \<Rightarrow> lastRaw st (PromName d) i | Some v \<Rightarrow> v)"
    and "exported (updateCRBMetrics data i' st) (PromName d) i =
           exported st (PromName d) i +
           (case reading d i (data, i') of
              None \<Rightarrow> 0 | Some v \<Rightarrow> max 0 (v - lastRaw st (PromName d) i))"
proof -
  have both: "lastRaw (updateCRBMetrics data i' st) (PromName d) i =
           (case reading d i (data, i') of None \<Rightarrow> lastRaw st (PromName d) i | Some v \<Rightarrow> v)
     \<and> exported (updateCRBMetrics data i' st) (PromName d) i =
           exported st (PromName d) i +
           (case reading d i (data, i') of
              None \<Rightarrow> 0 | Some v \<Rightarrow> max 0 (v - lastRaw st (PromName d) i))"
  proof (cases "\<exists>perf. map_of data ''performanceMetrics'' = Some (MapV perf)")
    case False
    then have "updateCRBMetrics data i' st = st" "reading d i (data, i') = None"
      by (auto simp: updateCRBMetrics_def reading_def split: option.splits dyn.splits)
    then show ?thesis by (simp split: option.splits)
  next
    case True
    then obtain perf where perf: "map_of data ''performanceMetrics'' = Some (MapV perf)" ..
    then have u: "updateCRBMetrics data i' st = foldl (updateDesc perf i') st crbMetricDescs"
      by (simp add: updateCRBMetrics_def)
    show ?thesis
    proof (cases "i' = i")
      case True
      then have "reading d i (data, i') = getNestedValue perf (JSONName d)"
        using perf by (simp add: reading_def)
      with foldl_updateDesc_key [OF crbMetricDescs_distinct assms, of perf i st] True u
      show ?thesis by (simp split: option.splits)
    next
      case False
      then have r: "reading d i (data, i') = None" by (simp add: reading_def)
      from False have "PromName d \<notin> PromName ` set crbMetricDescs \<or> i' \<noteq> i" by simp
      from foldl_updateDesc_other [OF this, of perf st] u r show ?thesis by (simp split: option.splits)
    qed
  qed
  from both show "lastRaw (updateCRBMetrics data i' st) (PromName d) i =
           (case reading d i (data, i') of None \<Rightarrow> lastRaw st (PromName d) i | Some v \<Rightarrow> v)"
    by simp
  from both show "exported (updateCRBMetrics data i' st) (PromName d) i =
           exported st (PromName d) i +
           (case reading d i (data, i') of
              None \<Rightarrow> 0 | Some v \<Rightarrow> max 0 (v - lastRaw st (PromName d) i))"
    by simp
qed

lemma runUpdates_key:
  assumes "d \<in> set crbMetricDescs" "Type d = counter"
  shows "exported (runUpdates st calls) (PromName d) i =
           exported st (PromName d) i + deltaSum (lastRaw st (PromName d) i) (readings d i calls)
       \<and> lastRaw (runUpdates st calls) (PromName d) i =
           last (lastRaw st (PromName d) i # readings d i calls)"
proof (induction calls arbitrary: st)
  case Nil
  show ?case by (simp add: runUpdates_def readings_def List.map_filter_simps)
next
  case (Cons call calls)
  obtain data i' where call: "call = (data, i')" by (cases call)
  have run: "runUpdates st (call # calls) = runUpdates (updateCRBMetrics data i' st) calls"
    by (simp add: runUpdates_def call)
  show ?case
  proof (cases "reading d i (data, i')")
    case None
    then have "readings d i (call # calls) = readings d i calls"
      by (simp add: readings_def List.map_filter_simps call)
    with Cons.IH [of "updateCRBMetrics data i' st"] updateCRBMetrics_key [OF assms, of data i' st i]
      None run
    show ?thesis by (simp split: option.splits)
  next
    case (Some v)
    then have "readings d i (call # calls) = v # readings d i calls"
      by (simp add: readings_def List.map_filter_simps call)
    with Cons.IH [of "updateCRBMetrics data i' st"] updateCRBMetrics_key [OF assms, of data i' st i]
      Some run
    show ?thesis by (simp split: option.splits)
  qed
qed

lemma updateCounter_mono: "exported st n i \<le> exported (updateCounter n' i' v st) n i"
proof (cases "(n', i') = (n, i)")
  case True
  then show ?thesis using updateCounter_same(2) [of n i v st] by simp
next
  case False
  then show ?thesis using updateCounter_other(2) [of n' i' n i v st] by simp
qed

lemma updateDesc_mono: "exported st n i \<le> exported (updateDesc perf i' st d) n i"
proof (cases "getNestedValue perf (JSONName d)")
  case None
  then show ?thesis by (simp add: updateDesc_def)
next
  case (Some v)
  show ?thesis
  proof (cases "Type d")
    case counter
    with Some show ?thesis by (simp add: updateDesc_def updateCounter_mono)
  next
    case gauge
    with Some show ?thesis by (simp add: updateDesc_def exported_def)
  qed
qed

lemma foldl_updateDesc_mono:
  "exported st n i \<le> exported (foldl (updateDesc perf i') st ds) n i"
proof (induction ds arbitrary: st)
  case Nil
  show ?case by simp
next
  case (Cons d ds)
  from updateDesc_mono [of st n i perf i' d] Cons.IH [of "updateDesc perf i' st d"]
  show ?case by simp
qed

lemma updateCRBMetrics_mono: "exported st n i \<le> exported (updateCRBMetrics data i' st) n i"
  by (simp add: updateCRBMetrics_def foldl_updateDesc_mono split: option.splits dyn.splits)

lemma runUpdates_mono: "exported st n i \<le> exported (runUpdates st calls) n i"
proof (induction calls arbitrary: st)
  case Nil
  show ?case by (simp add: runUpdates_def)
next
  case (Cons call calls)
  obtain data i' where call: "call = (data, i')" by (cases call)
  have "runUpdates st (call # calls) = runUpdates (updateCRBMetrics data i' st) calls"
    by (simp add: runUpdates_def call)
  with updateCRBMetrics_mono [of st n i data i'] Cons.IH [of "updateCRBMetrics data i' st"]
  show ?case by simp
qed

lemma emptyRegistry_key [simp]:
  "lastRaw emptyRegistry n i = 0" "exported emptyRegistry n i = 0"
  by (simp_all add: emptyRegistry_def lastRaw_def exported_def seriesValue_def)

text \<open>
  Claim C1 (as amended). For a counter descriptor of the table and an instance, after any
  sequence of calls of \<open>updateCRBMetrics\<close> the exported value has grown by the sum of the
  non-negative deltas of the readings delivered for that key, the first delta being taken
  against the stored last raw value. From the empty registry that stored value reads as 0:
  the first reading \<open>r0\<close> contributes \<open>max 0 r0\<close>, and the exported value is
  \<open>max 0 r0\<close> plus the sum over \<open>i \<ge> 1\<close> of \<open>max 0 (r i - r (i - 1))\<close>.
\<close>

theorem updateCRBMetrics_counter_sum:
  assumes "d \<in> set crbMetricDescs" and "Type d = counter"
  shows "exported (runUpdates st calls) (PromName d) inst =
           exported st (PromName d) inst
           + deltaSum (lastRaw st (PromName d) inst) (readings d inst calls)
       \<and> exported (runUpdates emptyRegistry calls) (PromName d) inst =
           deltaSum 0 (readings d inst calls)
       \<and> (readings d inst calls = r0 # rs \<longrightarrow>
            exported (runUpdates emptyRegistry calls) (PromName d) inst
              = max 0 r0 + deltaSum r0 rs)"
  using runUpdates_key [OF assms, of st calls inst]
    runUpdates_key [OF assms, of emptyRegistry calls inst]
  by auto

lemmas registry_eval =
  runUpdates_def updateCRBMetrics_def updateDesc_def updateCounter_def crbMetricDescs_def
  getNestedValue_def emptyRegistry_def exported_def lastRaw_def seriesValue_def index0_def
  WithLabelValues_def Add_def readings_def reading_def List.map_filter_simps Let_def

theorem updateCRBMetrics_counter_sum_witness:
  "\<lparr>JSONName = ''writeAttempts'', PromName = ''crb_total_cycle_count'',
     Help = ''Total number of cycles'', Type = counter\<rparr> \<in> set crbMetricDescs
   \<and> readings \<lparr>JSONName = ''writeAttempts'', PromName = ''crb_total_cycle_count'',
       Help = ''Total number of cycles'', Type = counter\<rparr> ''plc1''
       [([(''performanceMetrics'', MapV [(''writeAttempts'', Float64V 5)])], ''plc1''),
        ([(''performanceMetrics'', MapV [(''writeAttempts'', Float64V 3)])], ''plc1''),
        ([(''performanceMetrics'', MapV [(''writeAttempts'', Float64V 10)])], ''plc2''),
        ([(''performanceMetrics'', MapV [(''writeAttempts'', Float64V 9)])], ''plc1'')] = [5, 3, 9]
   \<and> exported (runUpdates emptyRegistry
       [([(''performanceMetrics'', MapV [(''writeAttempts'', Float64V 5)])], ''plc1''),
        ([(''performanceMetrics'', MapV [(''writeAttempts'', Float64V 3)])], ''plc1''),
        ([(''performanceMetrics'', MapV [(''writeAttempts'', Float64V 10)])], ''plc2''),
        ([(''performanceMetrics'', MapV [(''writeAttempts'', Float64V 9)])], ''plc1'')])
       ''crb_total_cycle_count'' ''plc1'' = 11"
proof -
  let ?d = "\<lparr>JSONName = ''writeAttempts'', PromName = ''crb_total_cycle_count'',
     Help = ''Total number of cycles'', Type = counter\<rparr>"
  let ?calls = "[([(''performanceMetrics'', MapV [(''writeAttempts'', Float64V 5)])], ''plc1''),
        ([(''performanceMetrics'', MapV [(''writeAttempts'', Float64V 3)])], ''plc1''),
        ([(''performanceMetrics'', MapV [(''writeAttempts'', Float64V 10)])], ''plc2''),
        ([(''performanceMetrics'', MapV [(''writeAttempts'', Float64V 9)])], ''plc1'')]"
  have m: "?d \<in> set crbMetricDescs" by (simp add: crbMetricDescs_def)
  have t: "Type ?d = counter" by simp
  have r: "readings ?d ''plc1'' ?calls = [5, 3, 9]"
    by (simp add: readings_def reading_def List.map_filter_simps getNestedValue_def)
  from updateCRBMetrics_counter_sum [OF m t, of emptyRegistry ?calls "''plc1''" 5 "[3, 9]"] r m
  show ?thesis by simp
qed

text \<open>
  The claim as stated fails at the first reading: with the single reading 5 the sum over
  \<open>i \<ge> 1\<close> is 0, and the exported value is 5.
\<close>

theorem updateCRBMetrics_first_reading_counterexample:
  "readings \<lparr>JSONName = ''writeAttempts'', PromName = ''crb_total_cycle_count'',
       Help = ''Total number of cycles'', Type = counter\<rparr> ''plc1''
       [([(''performanceMetrics'', MapV [(''writeAttempts'', Float64V 5)])], ''plc1'')] = [5]
   \<and> deltaSum 5 [] = 0
   \<and> exported (runUpdates emptyRegistry
         [([(''performanceMetrics'', MapV [(''writeAttempts'', Float64V 5)])], ''plc1'')])
       ''crb_total_cycle_count'' ''plc1'' = 5"
  by (simp add: registry_eval)

text \<open>
  Claim C2. The exported value of every key never decreases, in one call of
  \<open>updateCRBMetrics\<close> and over any sequence of calls. For a counter descriptor of the table:
  when the call delivers a reading whose difference to the stored last raw value is not
  positive, the exported value is unchanged; when it is positive, the exported value grows by
  exactly that difference; in both cases the stored last raw value becomes the reading; and a
  call that delivers no reading for the key changes neither.
\<close>

theorem updateCRBMetrics_counter_monotone:
  assumes "d \<in> set crbMetricDescs" and "Type d = counter"
  shows "exported st n inst \<le> exported (updateCRBMetrics data i st) n inst
       \<and> exported st n inst \<le> exported (runUpdates st calls) n inst
       \<and> (reading d inst (data, i) = Some rawValue \<and> rawValue - lastRaw st (PromName d) inst \<le> 0
            \<longrightarrow> exported (updateCRBMetrics data i st) (PromName d) inst
                  = exported st (PromName d) inst)
       \<and> (reading d inst (data, i) = Some rawValue \<and> rawValue - lastRaw st (PromName d) inst > 0
            \<longrightarrow> exported (updateCRBMetrics data i st) (PromName d) inst
                  = exported st (PromName d) inst + (rawValue - lastRaw st (PromName d) inst))
       \<and> (reading d inst (data, i) = Some rawValue
            \<longrightarrow> lastRaw (updateCRBMetrics data i st) (PromName d) inst = rawValue)
       \<and> (reading d inst (data, i) = None
            \<longrightarrow> lastRaw (updateCRBMetrics data i st) (PromName d) inst
                  = lastRaw st (PromName d) inst
                \<and> exported (updateCRBMetrics data i st) (PromName d) inst
                  = exported st (PromName d) inst)"
  using updateCRBMetrics_mono [of st n inst data i] runUpdates_mono [of st n inst calls]
    updateCRBMetrics_key [OF assms, of data i st inst]
  by (auto split: option.splits)

theorem updateCRBMetrics_counter_monotone_witness:
  "\<lparr>JSONName = ''writeAttempts'', PromName = ''crb_total_cycle_count'',
     Help = ''Total number of cycles'', Type = counter\<rparr> \<in> set crbMetricDescs
   \<and> reading \<lparr>JSONName = ''writeAttempts'', PromName = ''crb_total_cycle_count'',
       Help = ''Total number of cycles'', Type = counter\<rparr> ''plc1''
       ([(''performanceMetrics'', MapV [(''writeAttempts'', Float64V 3)])], ''plc1'') = Some 3
   \<and> lastRaw (updateCRBMetrics [(''performanceMetrics'', MapV [(''writeAttempts'', Float64V 5)])]
                ''plc1'' emptyRegistry) ''crb_total_cycle_count'' ''plc1'' = 5
   \<and> exported (updateCRBMetrics [(''performanceMetrics'', MapV [(''writeAttempts'', Float64V 3)])]
         ''plc1''
         (updateCRBMetrics [(''performanceMetrics'', MapV [(''writeAttempts'', Float64V 5)])]
            ''plc1'' emptyRegistry)) ''crb_total_cycle_count'' ''plc1''
       = exported (updateCRBMetrics [(''performanceMetrics'', MapV [(''writeAttempts'', Float64V 5)])]
            ''plc1'' emptyRegistry) ''crb_total_cycle_count'' ''plc1''
   \<and> lastRaw (updateCRBMetrics [(''performanceMetrics'', MapV [(''writeAttempts'', Float64V 3)])]
         ''plc1''
         (updateCRBMetrics [(''performanceMetrics'', MapV [(''writeAttempts'', Float64V 5)])]
            ''plc1'' emptyRegistry)) ''crb_total_cycle_count'' ''plc1'' = 3"
proof -
  let ?d = "\<lparr>JSONName = ''writeAttempts'', PromName = ''crb_total_cycle_count'',
     Help = ''Total number of cycles'', Type = counter\<rparr>"
  let ?st = "updateCRBMetrics [(''performanceMetrics'', MapV [(''writeAttempts'', Float64V 5)])]
                ''plc1'' emptyRegistry"
  have m: "?d \<in> set crbMetricDescs" by (simp add: crbMetricDescs_def)
  have t: "Type ?d = counter" by simp
  have r: "reading ?d ''plc1''
       ([(''performanceMetrics'', MapV [(''writeAttempts'', Float64V 3)])], ''plc1'') = Some 3"
    by (simp add: reading_def getNestedValue_def)
  have l: "lastRaw ?st ''crb_total_cycle_count'' ''plc1'' = 5"
    by (simp add: registry_eval)
  from updateCRBMetrics_counter_monotone [OF m t, of ?st "''crb_total_cycle_count''" "''plc1''"
      "[(''performanceMetrics'', MapV [(''writeAttempts'', Float64V 3)])]" "''plc1''" "[]" 3]
    m r l
  show ?thesis by simp
qed

section \<open>Properties of \<open>updateHistograms\<close>\<close>

lemma WithLabelValues_upd: "WithLabelValues vec k = vec(k \<mapsto> index0 vec k)"
  by (auto simp: WithLabelValues_def index0_def split: option.splits)

lemma bucket_step:
  "(if 0 < c - index0 prev k then Add (WithLabelValues vec k) k (c - index0 prev k)
    else WithLabelValues vec k)
   = vec(k \<mapsto> index0 vec k + max 0 (c - index0 prev k))"
  by (auto simp: Add_def WithLabelValues_upd max_def)

lemma bucketLoop_foldl:
  "bucketLoop m i ks c pv = foldl (applyCumulative i) pv (cumulativeFrom m c ks)"
proof (induction ks arbitrary: c pv)
  case Nil
  show ?case by simp
next
  case (Cons k ks)
  obtain prev vec where pv: "pv = (prev, vec)" by (cases pv)
  have "bucketLoop m i (k # ks) c (prev, vec) =
        bucketLoop m i ks (c + index0 (map_of m) k)
          (applyCumulative i (prev, vec) (parseBucketUpperBoundMs k, c + index0 (map_of m) k))"
    by (simp only: bucketLoop.simps Let_def applyCumulative_def prod.case bucket_step)
  then show ?case
    unfolding pv by (simp add: Cons.IH)
qed

lemma writeLoop_bucketLoop:
  "writeLoop m i ks c st =
     st\<lparr>prevWriteBuckets := fst (bucketLoop m i ks c (prevWriteBuckets st, writeDurationBuckets st)),
        writeDurationBuckets := snd (bucketLoop m i ks c (prevWriteBuckets st, writeDurationBuckets st))\<rparr>"
proof (induction ks arbitrary: c st)
  case Nil
  show ?case by simp
next
  case (Cons k ks)
  show ?case
    by (simp add: Let_def Cons.IH getPreviousBucketValue_def setPreviousBucketValue_def
        del: fun_upd_apply)
qed

lemma cycleLoop_bucketLoop:
  "cycleLoop m i ks c st =
     st\<lparr>prevCycleBuckets := fst (bucketLoop m i ks c (prevCycleBuckets st, cycleExtensionBuckets st)),
        cycleExtensionBuckets := snd (bucketLoop m i ks c (prevCycleBuckets st, cycleExtensionBuckets st))\<rparr>"
proof (induction ks arbitrary: c st)
  case Nil
  show ?case by simp
next
  case (Cons k ks)
  show ?case
    by (simp add: Let_def Cons.IH getPreviousBucketValue_def setPreviousBucketValue_def
        del: fun_upd_apply)
qed

lemma foldl_applyCumulative_key:
  "index0 (fst (foldl (applyCumulative i) (prev, vec) L)) (i', b) =
     (if i' = i then last (index0 prev (i, b) # cumsAt L b) else index0 prev (i', b))
   \<and> index0 (snd (foldl (applyCumulative i) (prev, vec) L)) (i', b) =
     index0 vec (i', b) + (if i' = i then deltaSum (index0 prev (i, b)) (cumsAt L b) else 0)"
proof (induction L arbitrary: prev vec)
  case Nil
  show ?case by (simp add: cumsAt_def)
next
  case (Cons lc L)
  obtain le c where lc: "lc = (le, c)" by (cases lc)
  define prev' where "prev' = prev((i, le) \<mapsto> c)"
  define vec' where "vec' = vec((i, le) \<mapsto> index0 vec (i, le) + max 0 (c - index0 prev (i, le)))"
  have st: "foldl (applyCumulative i) (prev, vec) (lc # L) = foldl (applyCumulative i) (prev', vec') L"
    by (simp add: applyCumulative_def lc prev'_def vec'_def)
  have pk: "index0 prev' (j, b) = (if j = i \<and> le = b then c else index0 prev (j, b))" for j
    by (auto simp: prev'_def)
  have vk: "index0 vec' (j, b) =
      (if j = i \<and> le = b then index0 vec (i, b) + max 0 (c - index0 prev (i, b))
       else index0 vec (j, b))" for j
    by (auto simp: vec'_def)
  have cs: "cumsAt (lc # L) b = (if le = b then c # cumsAt L b else cumsAt L b)"
    by (simp add: cumsAt_def lc)
  note IH = Cons.IH [of prev' vec']
  show ?case
  proof (cases "i' = i")
    case False
    with IH pk [of i'] vk [of i'] show ?thesis unfolding st by simp
  next
    case True
    show ?thesis
    proof (cases "le = b")
      case True
      with IH pk [of i] vk [of i] cs \<open>i' = i\<close> show ?thesis unfolding st by simp
    next
      case False
      with IH pk [of i] vk [of i] cs \<open>i' = i\<close> show ?thesis unfolding st by simp
    qed
  qed
qed

lemma updateHistogramsFrom_fields:
  "prevWriteBuckets (updateHistogramsFrom wks cks h i st) =
     fst (bucketLoop (WriteDurationHistogram h) i wks 0 (prevWriteBuckets st, writeDurationBuckets st))"
  "writeDurationBuckets (updateHistogramsFrom wks cks h i st) =
     snd (bucketLoop (WriteDurationHistogram h) i wks 0 (prevWriteBuckets st, writeDurationBuckets st))"
  "prevCycleBuckets (updateHistogramsFrom wks cks h i st) =
     fst (bucketLoop (CycleExtensionDurationHistogram h) i cks 0
            (prevCycleBuckets st, cycleExtensionBuckets st))"
  "cycleExtensionBuckets (updateHistogramsFrom wks cks h i st) =
     snd (bucketLoop (CycleExtensionDurationHistogram h) i cks 0
            (prevCycleBuckets st, cycleExtensionBuckets st))"
  "previousCounterValues (updateHistogramsFrom wks cks h i st) = previousCounterValues st"
  "crbMetrics (updateHistogramsFrom wks cks h i st) = crbMetrics st"
  "crbGauges (updateHistogramsFrom wks cks h i st) = crbGauges st"
  by (simp_all add: updateHistogramsFrom_def writeLoop_bucketLoop cycleLoop_bucketLoop)

lemma updateHistogramsFrom_key:
  assumes "kind = ''write'' \<or> kind = ''cycle''"
  shows "getPreviousBucketValue kind (i', b) (updateHistogramsFrom wks cks h i st) =
     (if i' = i
      then last (getPreviousBucketValue kind (i, b) st
                 # cumsAt (cumulativeFrom (responseBuckets kind h) 0
                            (if kind = ''write'' then wks else cks)) b)
      else getPreviousBucketValue kind (i', b) st)"
    and "seriesValue (bucketSeries kind (updateHistogramsFrom wks cks h i st)) (i', b) =
     seriesValue (bucketSeries kind st) (i', b) +
     (if i' = i
      then deltaSum (getPreviousBucketValue kind (i, b) st)
             (cumsAt (cumulativeFrom (responseBuckets kind h) 0
                            (if kind = ''write'' then wks else cks)) b)
      else 0)"
  using assms
    foldl_applyCumulative_key [of i "prevWriteBuckets st" "writeDurationBuckets st"
      "cumulativeFrom (WriteDurationHistogram h) 0 wks" i' b]
    foldl_applyCumulative_key [of i "prevCycleBuckets st" "cycleExtensionBuckets st"
      "cumulativeFrom (CycleExtensionDurationHistogram h) 0 cks" i' b]
  by (auto simp: getPreviousBucketValue_def bucketSeries_def responseBuckets_def seriesValue_def
      updateHistogramsFrom_fields bucketLoop_foldl)

lemma deltaSum_nonneg: "0 \<le> deltaSum p cs"
  by (induction cs arbitrary: p) (auto intro: add_nonneg_nonneg)



lemma count_distinct:
  "distinct (map fst m) \<Longrightarrow> lc \<in> set m \<Longrightarrow> index0 (map_of m) (fst lc) = snd lc"
  by (cases lc) (simp add: index0_def)

lemma cumulativeFrom_fst: "map fst (cumulativeFrom m c ks) = map parseBucketUpperBoundMs ks"
  by (induction ks arbitrary: c) simp_all

lemma cumulativeFrom_length: "length (cumulativeFrom m c ks) = length ks"
  by (induction ks arbitrary: c) simp_all

lemma cumulativeFrom_snd:
  "n < length ks \<Longrightarrow>
   snd (cumulativeFrom m c ks ! n) = c + sum_list (map (index0 (map_of m)) (take (Suc n) ks))"
proof (induction ks arbitrary: c n)
  case Nil
  then show ?case by simp
next
  case (Cons k ks)
  show ?case
  proof (cases n)
    case 0
    then show ?thesis by simp
  next
    case (Suc n')
    with Cons.prems have "n' < length ks" by simp
    from Cons.IH [OF this, of "c + index0 (map_of m) k"] Suc show ?thesis
      by (simp add: add.assoc)
  qed
qed





lemma keysSortedFor_sortedKeys: "keysSortedFor m (sortedKeys m)"
  by (simp add: keysSortedFor_def sortedKeys_def)

lemma cumsAt_empty:
  "b \<notin> parseBucketUpperBoundMs ` set ks \<Longrightarrow> cumsAt (cumulativeFrom m c ks) b = []"
proof -
  assume "b \<notin> parseBucketUpperBoundMs ` set ks"
  then have "b \<notin> set (map fst (cumulativeFrom m c ks))"
    by (simp add: cumulativeFrom_fst)
  then show ?thesis by (auto simp: cumsAt_def filter_empty_conv)
qed

lemma last_cumsAt:
  assumes "sorted (map parseBucketUpperBoundMs ks)" "b \<in> parseBucketUpperBoundMs ` set ks"
  shows "cumsAt (cumulativeFrom m c ks) b \<noteq> []
       \<and> last (cumsAt (cumulativeFrom m c ks) b) =
           c + sum_list (map (index0 (map_of m)) (filter (\<lambda>k. parseBucketUpperBoundMs k \<le> b) ks))"
  using assms
proof (induction ks arbitrary: c)
  case Nil
  then show ?case by simp
next
  case (Cons k ks)
  let ?c = "c + index0 (map_of m) k"
  from Cons.prems(1) have srt: "sorted (map parseBucketUpperBoundMs ks)"
    and le: "\<And>k'. k' \<in> set ks \<Longrightarrow> parseBucketUpperBoundMs k \<le> parseBucketUpperBoundMs k'"
    by auto
  have cs: "cumsAt (cumulativeFrom m c (k # ks)) b =
      (if parseBucketUpperBoundMs k = b then ?c # cumsAt (cumulativeFrom m ?c ks) b
       else cumsAt (cumulativeFrom m ?c ks) b)"
    by (simp add: cumsAt_def)
  show ?case
  proof (cases "b \<in> parseBucketUpperBoundMs ` set ks")
    case True
    with le have kb: "parseBucketUpperBoundMs k \<le> b" by auto
    from Cons.IH [OF srt True, of ?c] kb cs show ?thesis by (simp add: add.assoc)
  next
    case False
    with Cons.prems(2) have kb: "parseBucketUpperBoundMs k = b" by auto
    have "\<not> parseBucketUpperBoundMs k' \<le> b" if "k' \<in> set ks" for k'
      using le [OF that] False that kb by force
    then have "filter (\<lambda>k. parseBucketUpperBoundMs k \<le> b) ks = []"
      by (simp add: filter_empty_conv)
    with cumsAt_empty [OF False, of m ?c] kb cs show ?thesis by simp
  qed
qed

lemma sum_list_mset_cong:
  "mset xs = mset ys \<Longrightarrow> sum_list (map f xs) = sum_list (map (f::'a \<Rightarrow> real) ys)"
proof -
  assume "mset xs = mset ys"
  then have "mset (map f xs) = mset (map f ys)" by (metis mset_map)
  then have "sum_mset (mset (map f xs)) = sum_mset (mset (map f ys))" by simp
  then show ?thesis by (simp only: sum_mset_sum_list)
qed

lemma sum_filter_keys:
  assumes "mset ks = mset (map fst m)" "distinct (map fst m)"
  shows "sum_list (map (index0 (map_of m)) (filter (\<lambda>k. parseBucketUpperBoundMs k \<le> b) ks))
         = cumulativeAt m b"
proof -
  let ?P = "\<lambda>k. parseBucketUpperBoundMs k \<le> b"
  have "mset (filter ?P ks) = mset (filter ?P (map fst m))"
    using assms(1) by (metis mset_filter)
  then have "sum_list (map (index0 (map_of m)) (filter ?P ks))
      = sum_list (map (index0 (map_of m)) (filter ?P (map fst m)))"
    by (rule sum_list_mset_cong)
  also have "filter ?P (map fst m) = map fst (filter (\<lambda>lc. ?P (fst lc)) m)"
    by (simp add: filter_map comp_def)
  also have "map (index0 (map_of m)) (map fst (filter (\<lambda>lc. ?P (fst lc)) m))
      = map snd (filter (\<lambda>lc. ?P (fst lc)) m)"
    using count_distinct [OF assms(2)] by (auto simp: map_eq_conv)
  finally show ?thesis by (simp add: cumulativeAt_def)
qed

lemma cumsAt_cumulativeAt:
  assumes "keysSortedFor m ks" "distinct (map fst m)"
    and "b \<in> parseBucketUpperBoundMs ` fst ` set m"
  shows "cumsAt (cumulativeFrom m 0 ks) b \<noteq> []"
    and "last (cumsAt (cumulativeFrom m 0 ks) b) = cumulativeAt m b"
proof -
  from assms(1) have ms: "mset ks = mset (map fst m)"
    and srt: "sorted (map parseBucketUpperBoundMs ks)" by (simp_all add: keysSortedFor_def)
  from ms have "set ks = fst ` set m" by (metis set_mset_mset set_map)
  with assms(3) have b: "b \<in> parseBucketUpperBoundMs ` set ks" by simp
  from last_cumsAt [OF srt b, of m 0] sum_filter_keys [OF ms assms(2), of b]
  show "cumsAt (cumulativeFrom m 0 ks) b \<noteq> []"
    and "last (cumsAt (cumulativeFrom m 0 ks) b) = cumulativeAt m b" by simp_all
qed

lemma updateHistograms_key:
  assumes "kind = ''write'' \<or> kind = ''cycle''"
  shows "getPreviousBucketValue kind (i', b) (updateHistograms h i st) =
     (if i' = i
      then last (getPreviousBucketValue kind (i, b) st
                 # cumsAt (cumulativeSequence (responseBuckets kind h)) b)
      else getPreviousBucketValue kind (i', b) st)"
    and "seriesValue (bucketSeries kind (updateHistograms h i st)) (i', b) =
     seriesValue (bucketSeries kind st) (i', b) +
     (if i' = i
      then deltaSum (getPreviousBucketValue kind (i, b) st)
             (cumsAt (cumulativeSequence (responseBuckets kind h)) b)
      else 0)"
  using assms updateHistogramsFrom_key [OF assms,
      where wks = "sortedKeys (WriteDurationHistogram h)"
        and cks = "sortedKeys (CycleExtensionDurationHistogram h)"
        and i' = i' and b = b and h = h and i = i and st = st]
  by (auto simp: updateHistograms_def cumulativeSequence_def responseBuckets_def)

lemma updateHistograms_series_mono:
  assumes "kind = ''write'' \<or> kind = ''cycle''"
  shows "seriesValue (bucketSeries kind st) key
         \<le> seriesValue (bucketSeries kind (updateHistograms h i st)) key"
proof -
  obtain i' b where key: "key = (i', b)" by (cases key)
  show ?thesis
    unfolding key updateHistograms_key(2) [OF assms]
    using deltaSum_nonneg by simp
qed

lemma runHistograms_series_mono:
  assumes "kind = ''write'' \<or> kind = ''cycle''"
  shows "seriesValue (bucketSeries kind st) key
         \<le> seriesValue (bucketSeries kind (runHistograms st calls)) key"
proof (induction calls arbitrary: st)
  case Nil
  show ?case by (simp add: runHistograms_def)
next
  case (Cons call calls)
  obtain h i where call: "call = (h, i)" by (cases call)
  have "runHistograms st (call # calls) = runHistograms (updateHistograms h i st) calls"
    by (simp add: runHistograms_def call)
  with updateHistograms_series_mono [OF assms, of st key h i]
    Cons.IH [of "updateHistograms h i st"]
  show ?case by simp
qed

lemma filter_fst_distinct:
  "distinct (map fst L) \<Longrightarrow> x \<in> set (filter (\<lambda>lc. fst lc = b) L)
   \<Longrightarrow> filter (\<lambda>lc. fst lc = b) L = [x]"
proof (induction L)
  case Nil
  then show ?case by simp
next
  case (Cons y L)
  show ?case
  proof (cases "fst y = b")
    case True
    with Cons.prems(1) have "b \<notin> fst ` set L" by simp
    then have "\<forall>z\<in>set L. fst z \<noteq> b" by (auto simp: image_iff)
    then have "filter (\<lambda>lc. fst lc = b) L = []" by (simp add: filter_empty_conv)
    with True Cons.prems(2) show ?thesis by simp
  next
    case False
    with Cons show ?thesis by simp
  qed
qed

lemma cumsAt_single:
  assumes "distinct (map parseBucketUpperBoundMs ks)" "cumsAt (cumulativeFrom m c ks) b \<noteq> []"
  shows "cumsAt (cumulativeFrom m c ks) b = [last (cumsAt (cumulativeFrom m c ks) b)]"
proof -
  let ?L = "cumulativeFrom m c ks"
  from assms(2) obtain x where x: "x \<in> set (filter (\<lambda>lc. fst lc = b) ?L)"
    unfolding cumsAt_def by (cases "filter (\<lambda>lc. fst lc = b) ?L") auto
  have "distinct (map fst ?L)" using assms(1) by (simp add: cumulativeFrom_fst)
  from filter_fst_distinct [OF this x] show ?thesis by (simp add: cumsAt_def)
qed

lemma cumulativeAt_mono:
  "nonNegative m \<Longrightarrow> b1 \<le> b2 \<Longrightarrow> cumulativeAt m b1 \<le> cumulativeAt m b2"
proof (induction m)
  case Nil
  show ?case by (simp add: cumulativeAt_def)
next
  case (Cons lc m)
  from Cons.prems(1) have "0 \<le> snd lc" "nonNegative m" by (simp_all add: nonNegative_def)
  with Cons.IH [OF this(2) Cons.prems(2)] Cons.prems(2) show ?case
    by (auto simp: cumulativeAt_def)
qed

lemma steadyResponse_key:
  assumes kind: "kind = ''write'' \<or> kind = ''cycle''"
    and sr: "steadyResponse kind i st h"
    and b: "b \<in> parseBucketUpperBoundMs ` fst ` set (responseBuckets kind h)"
  shows "cumsAt (cumulativeSequence (responseBuckets kind h)) b
           = [cumulativeAt (responseBuckets kind h) b]"
    and "getPreviousBucketValue kind (i, b) st \<le> cumulativeAt (responseBuckets kind h) b"
proof -
  let ?m = "responseBuckets kind h"
  let ?ks = "sortedKeys ?m"
  from sr have db: "distinct (map (\<lambda>lc. parseBucketUpperBoundMs (fst lc)) ?m)"
    and le: "\<And>lc. lc \<in> set ?m \<Longrightarrow>
          getPreviousBucketValue kind (i, parseBucketUpperBoundMs (fst lc)) st
          \<le> cumulativeAt ?m (parseBucketUpperBoundMs (fst lc))"
    by (auto simp: steadyResponse_def Let_def list_all_iff)
  have db': "distinct (map parseBucketUpperBoundMs (map fst ?m))"
    using db by (simp add: comp_def)
  then have dk: "distinct (map fst ?m)"
    using distinct_map [of parseBucketUpperBoundMs "map fst ?m"] by blast
  have ks: "keysSortedFor ?m ?ks" by (rule keysSortedFor_sortedKeys)
  then have "mset ?ks = mset (map fst ?m)" by (simp add: keysSortedFor_def)
  then have "mset (map parseBucketUpperBoundMs ?ks) = mset (map parseBucketUpperBoundMs (map fst ?m))"
    by (metis mset_map)
  with db' have dks: "distinct (map parseBucketUpperBoundMs ?ks)"
    by (metis mset_eq_imp_distinct_iff)
  from cumsAt_cumulativeAt [OF ks dk b]
  have ne: "cumsAt (cumulativeFrom ?m 0 ?ks) b \<noteq> []"
    and la: "last (cumsAt (cumulativeFrom ?m 0 ?ks) b) = cumulativeAt ?m b" by simp_all
  from cumsAt_single [OF dks ne] la
  show "cumsAt (cumulativeSequence ?m) b = [cumulativeAt ?m b]"
    by (simp add: cumulativeSequence_def)
  from b obtain lc where "lc \<in> set ?m" "b = parseBucketUpperBoundMs (fst lc)" by auto
  with le [of lc] show "getPreviousBucketValue kind (i, b) st \<le> cumulativeAt ?m b" by simp
qed

lemma steady_step:
  assumes kind: "kind = ''write'' \<or> kind = ''cycle''"
    and inv: "\<And>b. seriesValue (bucketSeries kind st) (i, b) = getPreviousBucketValue kind (i, b) st"
    and cond: "i' = i \<Longrightarrow> steadyResponse kind i st h"
  shows "seriesValue (bucketSeries kind (updateHistograms h i' st)) (i, b)
           = getPreviousBucketValue kind (i, b) (updateHistograms h i' st)"
    and "i' = i \<Longrightarrow> b \<in> parseBucketUpperBoundMs ` fst ` set (responseBuckets kind h) \<Longrightarrow>
         seriesValue (bucketSeries kind (updateHistograms h i' st)) (i, b)
           = cumulativeAt (responseBuckets kind h) b"
proof -
  let ?m = "responseBuckets kind h"
  note key = updateHistograms_key [OF kind, where i' = i and b = b and h = h and i = i' and st = st]
  have both: "seriesValue (bucketSeries kind (updateHistograms h i' st)) (i, b)
           = getPreviousBucketValue kind (i, b) (updateHistograms h i' st)
      \<and> (i' = i \<and> b \<in> parseBucketUpperBoundMs ` fst ` set ?m \<longrightarrow>
         seriesValue (bucketSeries kind (updateHistograms h i' st)) (i, b) = cumulativeAt ?m b)"
  proof (cases "i' = i")
    case False
    with key inv [of b] show ?thesis by simp
  next
    case True
    show ?thesis
    proof (cases "b \<in> parseBucketUpperBoundMs ` fst ` set ?m")
      case False
      have "set (sortedKeys ?m) = fst ` set ?m" by (simp add: sortedKeys_def)
      with False have "b \<notin> parseBucketUpperBoundMs ` set (sortedKeys ?m)" by simp
      from cumsAt_empty [OF this, of ?m 0] have "cumsAt (cumulativeSequence ?m) b = []"
        by (simp add: cumulativeSequence_def)
      with key inv [of b] True False show ?thesis by simp
    next
      case b: True
      from steadyResponse_key [OF kind cond [OF True] b]
      have "cumsAt (cumulativeSequence ?m) b = [cumulativeAt ?m b]"
        and "getPreviousBucketValue kind (i, b) st \<le> cumulativeAt ?m b" by simp_all
      with key inv [of b] True show ?thesis by (simp add: max_def)
    qed
  qed
  from both show "seriesValue (bucketSeries kind (updateHistograms h i' st)) (i, b)
           = getPreviousBucketValue kind (i, b) (updateHistograms h i' st)" by simp
  from both show "i' = i \<Longrightarrow> b \<in> parseBucketUpperBoundMs ` fst ` set ?m \<Longrightarrow>
         seriesValue (bucketSeries kind (updateHistograms h i' st)) (i, b) = cumulativeAt ?m b"
    by simp
qed

lemma steady_run:
  assumes kind: "kind = ''write'' \<or> kind = ''cycle''"
  shows "(\<And>b. seriesValue (bucketSeries kind st) (i, b) = getPreviousBucketValue kind (i, b) st)
    \<Longrightarrow> steady kind i st calls
    \<Longrightarrow> seriesValue (bucketSeries kind (runHistograms st calls)) (i, b)
        = getPreviousBucketValue kind (i, b) (runHistograms st calls)"
proof (induction calls arbitrary: st)
  case Nil
  then show ?case by (simp add: runHistograms_def)
next
  case (Cons call calls)
  obtain h i' where call: "call = (h, i')" by (cases call)
  have run: "runHistograms st (call # calls) = runHistograms (updateHistograms h i' st) calls"
    by (simp add: runHistograms_def call)
  from Cons.prems(2) have c: "i' = i \<Longrightarrow> steadyResponse kind i st h"
    and s: "steady kind i (updateHistograms h i' st) calls" by (simp_all add: call)
  have "\<And>b. seriesValue (bucketSeries kind (updateHistograms h i' st)) (i, b)
           = getPreviousBucketValue kind (i, b) (updateHistograms h i' st)"
    using steady_step(1) [OF kind Cons.prems(1) c] by simp
  from Cons.IH [OF this s] show ?case by (simp add: run)
qed

lemma runHistograms_append:
  "runHistograms st (xs @ ys) = runHistograms (runHistograms st xs) ys"
  by (simp add: runHistograms_def)

lemma steady_append:
  "steady kind i st (xs @ ys) = (steady kind i st xs \<and> steady kind i (runHistograms st xs) ys)"
proof (induction xs arbitrary: st)
  case Nil
  show ?case by (simp add: runHistograms_def)
next
  case (Cons x xs)
  obtain h i' where x: "x = (h, i')" by (cases x)
  have "runHistograms st (x # xs) = runHistograms (updateHistograms h i' st) xs"
    by (simp add: runHistograms_def x)
  with Cons.IH [of "updateHistograms h i' st"] show ?case by (auto simp: x)
qed

lemma emptyRegistry_buckets:
  "seriesValue (bucketSeries kind emptyRegistry) key = 0"
  "getPreviousBucketValue kind key emptyRegistry = 0"
  by (simp_all add: seriesValue_def bucketSeries_def getPreviousBucketValue_def emptyRegistry_def)

lemma steady_latest:
  assumes kind: "kind = ''write'' \<or> kind = ''cycle''"
    and st: "steady kind i emptyRegistry (calls @ [(h, i)])"
    and b: "b \<in> parseBucketUpperBoundMs ` fst ` set (responseBuckets kind h)"
  shows "seriesValue (bucketSeries kind (runHistograms emptyRegistry (calls @ [(h, i)]))) (i, b)
         = cumulativeAt (responseBuckets kind h) b"
proof -
  let ?st = "runHistograms emptyRegistry calls"
  from st have s1: "steady kind i emptyRegistry calls" and s2: "steadyResponse kind i ?st h"
    by (simp_all add: steady_append)
  have inv: "\<And>b. seriesValue (bucketSeries kind ?st) (i, b) = getPreviousBucketValue kind (i, b) ?st"
    using steady_run [OF kind _ s1] by (simp add: emptyRegistry_buckets)
  have "runHistograms emptyRegistry (calls @ [(h, i)]) = updateHistograms h i ?st"
    by (simp add: runHistograms_def)
  with steady_step(2) [OF kind inv s2 refl b] show ?thesis by simp
qed



lemmas histogram_eval =
  updateHistograms_def updateHistogramsFrom_def sortedKeys_def cumulativeSequence_def
  parseBucketUpperBoundMs_def matchAt_def isDigit_def ParseFloat_def decNat_def digitVal_def
  Let_def emptyRegistry_def getPreviousBucketValue_def setPreviousBucketValue_def
  WithLabelValues_def Add_def index0_def seriesValue_def bucketSeries_def responseBuckets_def
  prevBuckets_def cumulativeAt_def nonNegative_def runHistograms_def steadyResponse_def
  keysSortedFor_def



lemma cumulativeFrom_cong:
  "map_of m = map_of m' \<Longrightarrow> cumulativeFrom m c ks = cumulativeFrom m' c ks"
  by (induction ks arbitrary: c) simp_all

lemma cumulativeFrom_any_order:
  assumes perm: "mset m = mset m0"
    and db: "distinct (map parseBucketUpperBoundMs (map fst m0))"
    and ks: "keysSortedFor m ks"
  shows "cumulativeFrom m 0 ks = cumulativeSequence m0"
proof -
  from perm have keys: "mset (map fst m) = mset (map fst m0)" by (metis mset_map)
  from ks have mk: "mset ks = mset (map fst m)"
    and srt: "sorted (map parseBucketUpperBoundMs ks)" by (simp_all add: keysSortedFor_def)
  have inj: "inj_on parseBucketUpperBoundMs (set (map fst m0))"
    using db distinct_map [of parseBucketUpperBoundMs "map fst m0"] by blast
  have "mset (map fst m0) = mset ks" using mk keys by simp
  from sort_key_inj_key_eq [OF this inj srt] have k: "ks = sortedKeys m0"
    by (simp add: sortedKeys_def)
  have d0: "distinct (map fst m0)"
    using db distinct_map [of parseBucketUpperBoundMs "map fst m0"] by blast
  with keys have d: "distinct (map fst m)" by (metis mset_eq_imp_distinct_iff)
  from perm have "set m = set m0" by (metis set_mset_mset)
  with d d0 have "map_of m = map_of m0" by (simp add: map_of_inject_set)
  from cumulativeFrom_cong [OF this] k show ?thesis by (simp add: cumulativeSequence_def)
qed

text \<open>
  Claim C3. For each of the two maps of a response, \<open>updateHistograms\<close> takes the labels
  sorted by ascending parsed bound, pairs each with the running sum of the counts in that
  order, and folds that cumulative sequence into the stored previous values and the bucket
  series with \<open>applyCumulative\<close>: only a positive delta against the value stored for the
  same boundary is added. The input \<open>{"0-1ms":3, "1-5ms":2, "5+ms":1}\<close> has the cumulative
  sequence \<open>(1, 3), (5, 5), (1e9, 6)\<close>, in whatever order the map is visited and the sort
  leaves its keys.
\<close>

theorem updateHistograms_cumulative:
  "keysSortedFor m (sortedKeys m)
   \<and> map fst (cumulativeSequence m) = map parseBucketUpperBoundMs (sortedKeys m)
   \<and> (n < length (sortedKeys m) \<longrightarrow>
        snd (cumulativeSequence m ! n)
          = sum_list (map (index0 (map_of m)) (take (Suc n) (sortedKeys m))))
   \<and> (prevWriteBuckets (updateHistograms hist i st), writeDurationBuckets (updateHistograms hist i st))
        = foldl (applyCumulative i) (prevWriteBuckets st, writeDurationBuckets st)
            (cumulativeSequence (WriteDurationHistogram hist))
   \<and> (prevCycleBuckets (updateHistograms hist i st), cycleExtensionBuckets (updateHistograms hist i st))
        = foldl (applyCumulative i) (prevCycleBuckets st, cycleExtensionBuckets st)
            (cumulativeSequence (CycleExtensionDurationHistogram hist))
   \<and> cumulativeSequence [(''0-1ms'', 3), (''1-5ms'', 2), (''5+ms'', 1)]
        = [(1, 3), (5, 5), (1000000000, 6)]
   \<and> (mset m' = mset [(''0-1ms'', 3), (''1-5ms'', 2), (''5+ms'', 1)] \<and> keysSortedFor m' ks \<longrightarrow>
        cumulativeFrom m' 0 ks = [(1, 3), (5, 5), (1000000000, 6)])"
proof -
  have a: "keysSortedFor m (sortedKeys m)" by (rule keysSortedFor_sortedKeys)
  have b: "map fst (cumulativeSequence m) = map parseBucketUpperBoundMs (sortedKeys m)"
    by (simp add: cumulativeSequence_def cumulativeFrom_fst)
  have c: "snd (cumulativeSequence m ! n)
          = sum_list (map (index0 (map_of m)) (take (Suc n) (sortedKeys m)))"
    if "n < length (sortedKeys m)"
    using cumulativeFrom_snd [OF that, of m 0] by (simp add: cumulativeSequence_def)
  have w: "(prevWriteBuckets (updateHistograms hist i st), writeDurationBuckets (updateHistograms hist i st))
        = foldl (applyCumulative i) (prevWriteBuckets st, writeDurationBuckets st)
            (cumulativeSequence (WriteDurationHistogram hist))"
    by (simp add: updateHistograms_def updateHistogramsFrom_fields bucketLoop_foldl
        cumulativeSequence_def)
  have y: "(prevCycleBuckets (updateHistograms hist i st), cycleExtensionBuckets (updateHistograms hist i st))
        = foldl (applyCumulative i) (prevCycleBuckets st, cycleExtensionBuckets st)
            (cumulativeSequence (CycleExtensionDurationHistogram hist))"
    by (simp add: updateHistograms_def updateHistogramsFrom_fields bucketLoop_foldl
        cumulativeSequence_def)
  have e: "cumulativeSequence [(''0-1ms'', 3), (''1-5ms'', 2), (''5+ms'', 1)]
        = [(1, 3), (5, 5), (1000000000, 6)]"
    by (simp add: histogram_eval)
  have d: "distinct (map parseBucketUpperBoundMs
             (map fst [(''0-1ms'', 3::real), (''1-5ms'', 2), (''5+ms'', 1)]))"
    by (simp add: histogram_eval)
  have o: "cumulativeFrom m' 0 ks = [(1, 3), (5, 5), (1000000000, 6)]"
    if "mset m' = mset [(''0-1ms'', 3), (''1-5ms'', 2), (''5+ms'', 1)]" "keysSortedFor m' ks"
    using cumulativeFrom_any_order [OF that(1) d that(2)] e by simp
  from a b c w y e o show ?thesis by blast
qed

theorem updateHistograms_cumulative_witness:
  "(1::nat) < length (sortedKeys [(''5+ms'', 1), (''0-1ms'', 3), (''1-5ms'', 2)])
   \<and> sortedKeys [(''5+ms'', 1), (''0-1ms'', 3), (''1-5ms'', 2)] = [''0-1ms'', ''1-5ms'', ''5+ms'']
   \<and> snd (cumulativeSequence [(''5+ms'', 1), (''0-1ms'', 3), (''1-5ms'', 2)] ! 1) = 5
   \<and> mset [(''5+ms'', 1::real), (''0-1ms'', 3), (''1-5ms'', 2)]
       = mset [(''0-1ms'', 3), (''1-5ms'', 2), (''5+ms'', 1)]
   \<and> keysSortedFor [(''5+ms'', 1), (''0-1ms'', 3), (''1-5ms'', 2)] [''0-1ms'', ''1-5ms'', ''5+ms'']
   \<and> cumulativeFrom [(''5+ms'', 1), (''0-1ms'', 3), (''1-5ms'', 2)] 0 [''0-1ms'', ''1-5ms'', ''5+ms'']
       = [(1, 3), (5, 5), (1000000000, 6)]"
proof -
  let ?m = "[(''5+ms'', 1::real), (''0-1ms'', 3), (''1-5ms'', 2)]"
  have k: "sortedKeys ?m = [''0-1ms'', ''1-5ms'', ''5+ms'']"
    by (simp add: histogram_eval)
  have p: "mset ?m = mset [(''0-1ms'', 3), (''1-5ms'', 2), (''5+ms'', 1)]" by simp
  have s: "keysSortedFor ?m [''0-1ms'', ''1-5ms'', ''5+ms'']"
    using keysSortedFor_sortedKeys [of ?m] by (simp only: k)
  from updateHistograms_cumulative [of ?m 1 _ _ _ ?m "[''0-1ms'', ''1-5ms'', ''5+ms'']"] k p s
  show ?thesis by (simp add: index0_def)
qed

text \<open>
  Claim C4 (as amended). For each histogram kind the exported count of every bucket series
  never decreases, in one call of \<open>updateHistograms\<close> and over any sequence of calls. And
  from the empty registry, as long as every response applied for the instance showed no
  reset (distinct bounds, no negative count, no cumulative count below the stored previous
  value of its boundary), the exported counts of the boundaries of the latest response are
  non-decreasing in the upper bound.
\<close>

theorem updateHistograms_bucket_counts:
  assumes "kind = ''write'' \<or> kind = ''cycle''"
  shows "seriesValue (bucketSeries kind st) key
           \<le> seriesValue (bucketSeries kind (updateHistograms hist i st)) key
       \<and> seriesValue (bucketSeries kind st) key
           \<le> seriesValue (bucketSeries kind (runHistograms st calls)) key
       \<and> (steady kind i emptyRegistry (calls @ [(hist, i)])
            \<and> lc1 \<in> set (responseBuckets kind hist) \<and> lc2 \<in> set (responseBuckets kind hist)
            \<and> parseBucketUpperBoundMs (fst lc1) \<le> parseBucketUpperBoundMs (fst lc2) \<longrightarrow>
          seriesValue (bucketSeries kind (runHistograms emptyRegistry (calls @ [(hist, i)])))
              (i, parseBucketUpperBoundMs (fst lc1))
            \<le> seriesValue (bucketSeries kind (runHistograms emptyRegistry (calls @ [(hist, i)])))
              (i, parseBucketUpperBoundMs (fst lc2)))"
proof -
  let ?m = "responseBuckets kind hist"
  let ?fin = "runHistograms emptyRegistry (calls @ [(hist, i)])"
  have ord: "seriesValue (bucketSeries kind ?fin) (i, parseBucketUpperBoundMs (fst lc1))
            \<le> seriesValue (bucketSeries kind ?fin) (i, parseBucketUpperBoundMs (fst lc2))"
    if s: "steady kind i emptyRegistry (calls @ [(hist, i)])"
      and l1: "lc1 \<in> set ?m" and l2: "lc2 \<in> set ?m"
      and le: "parseBucketUpperBoundMs (fst lc1) \<le> parseBucketUpperBoundMs (fst lc2)"
  proof -
    from s have "steadyResponse kind i (runHistograms emptyRegistry calls) hist"
      by (simp add: steady_append)
    then have nn: "nonNegative ?m" by (simp add: steadyResponse_def Let_def)
    from l1 have b1: "parseBucketUpperBoundMs (fst lc1) \<in> parseBucketUpperBoundMs ` fst ` set ?m"
      by simp
    from l2 have b2: "parseBucketUpperBoundMs (fst lc2) \<in> parseBucketUpperBoundMs ` fst ` set ?m"
      by simp
    from steady_latest [OF assms s b1] steady_latest [OF assms s b2] cumulativeAt_mono [OF nn le]
    show ?thesis by simp
  qed
  from updateHistograms_series_mono [OF assms, of st key hist i]
    runHistograms_series_mono [OF assms, of st key calls] ord
  show ?thesis by blast
qed

theorem updateHistograms_bucket_counts_witness:
  "steady ''write'' ''p'' emptyRegistry
     ([(\<lparr>Timestamp = 0, CycleExtensionDurationHistogram = [],
         WriteDurationHistogram = [(''0-1ms'', 3), (''1-5ms'', 2)]\<rparr>, ''p'')]
      @ [(\<lparr>Timestamp = 1, CycleExtensionDurationHistogram = [],
         WriteDurationHistogram = [(''0-1ms'', 4), (''1-5ms'', 2)]\<rparr>, ''p'')])
   \<and> seriesValue (writeDurationBuckets (runHistograms emptyRegistry
     ([(\<lparr>Timestamp = 0, CycleExtensionDurationHistogram = [],
         WriteDurationHistogram = [(''0-1ms'', 3), (''1-5ms'', 2)]\<rparr>, ''p'')]
      @ [(\<lparr>Timestamp = 1, CycleExtensionDurationHistogram = [],
         WriteDurationHistogram = [(''0-1ms'', 4), (''1-5ms'', 2)]\<rparr>, ''p'')]))) (''p'', 1)
     \<le> seriesValue (writeDurationBuckets (runHistograms emptyRegistry
     ([(\<lparr>Timestamp = 0, CycleExtensionDurationHistogram = [],
         WriteDurationHistogram = [(''0-1ms'', 3), (''1-5ms'', 2)]\<rparr>, ''p'')]
      @ [(\<lparr>Timestamp = 1, CycleExtensionDurationHistogram = [],
         WriteDurationHistogram = [(''0-1ms'', 4), (''1-5ms'', 2)]\<rparr>, ''p'')]))) (''p'', 5)"
proof -
  let ?h1 = "\<lparr>Timestamp = 0, CycleExtensionDurationHistogram = [],
         WriteDurationHistogram = [(''0-1ms'', 3), (''1-5ms'', 2)]\<rparr>"
  let ?h2 = "\<lparr>Timestamp = 1, CycleExtensionDurationHistogram = [],
         WriteDurationHistogram = [(''0-1ms'', 4), (''1-5ms'', 2)]\<rparr>"
  have k: "''write'' = ''write'' \<or> ''write'' = ''cycle''" by simp
  have p1: "parseBucketUpperBoundMs ''0-1ms'' = 1" and p5: "parseBucketUpperBoundMs ''1-5ms'' = 5"
    by (simp_all add: histogram_eval)
  have s: "steady ''write'' ''p'' emptyRegistry ([(?h1, ''p'')] @ [(?h2, ''p'')])"
    by (simp add: histogram_eval)
  from updateHistograms_bucket_counts [OF k, of emptyRegistry "(''p'', 1)" ?h2 "''p''"
      "[(?h1, ''p'')]" "(''0-1ms'', 4)" "(''1-5ms'', 2)"] s p1 p5
  show ?thesis by (simp add: bucketSeries_def responseBuckets_def)
qed

text \<open>
  The claim as stated fails after resets at the source: three responses whose counts for
  \<open>0-1ms\<close> are 10, 0, 9 and for \<open>1-5ms\<close> are 0, 9, 0 leave the bucket of bound 1 at 19
  and the bucket of bound 5 at 10.
\<close>

theorem updateHistograms_bucket_order_counterexample:
  "seriesValue (writeDurationBuckets (runHistograms emptyRegistry
     [(\<lparr>Timestamp = 0, CycleExtensionDurationHistogram = [],
        WriteDurationHistogram = [(''0-1ms'', 10), (''1-5ms'', 0)]\<rparr>, ''p''),
      (\<lparr>Timestamp = 1, CycleExtensionDurationHistogram = [],
        WriteDurationHistogram = [(''0-1ms'', 0), (''1-5ms'', 9)]\<rparr>, ''p''),
      (\<lparr>Timestamp = 2, CycleExtensionDurationHistogram = [],
        WriteDurationHistogram = [(''0-1ms'', 9), (''1-5ms'', 0)]\<rparr>, ''p'')])) (''p'', 1) = 19
   \<and> seriesValue (writeDurationBuckets (runHistograms emptyRegistry
     [(\<lparr>Timestamp = 0, CycleExtensionDurationHistogram = [],
        WriteDurationHistogram = [(''0-1ms'', 10), (''1-5ms'', 0)]\<rparr>, ''p''),
      (\<lparr>Timestamp = 1, CycleExtensionDurationHistogram = [],
        WriteDurationHistogram = [(''0-1ms'', 0), (''1-5ms'', 9)]\<rparr>, ''p''),
      (\<lparr>Timestamp = 2, CycleExtensionDurationHistogram = [],
        WriteDurationHistogram = [(''0-1ms'', 9), (''1-5ms'', 0)]\<rparr>, ''p'')])) (''p'', 5) = 10"
  by (simp add: histogram_eval)

section \<open>Properties of the collection cycle and the ticker loop\<close>

lemma updateHistograms_scalarState:
  "scalarState (updateHistograms h i st) = scalarState st"
  by (simp add: scalarState_def updateHistograms_def updateHistogramsFrom_fields)

lemma updateCounter_bucketState: "bucketState (updateCounter n i v st) = bucketState st"
  by (simp add: bucketState_def updateCounter_def Let_def)

lemma updateDesc_bucketState: "bucketState (updateDesc perf i st d) = bucketState st"
proof (cases "getNestedValue perf (JSONName d)")
  case None
  then show ?thesis by (simp add: updateDesc_def)
next
  case (Some v)
  then show ?thesis
    by (cases "Type d") (simp_all add: updateDesc_def updateCounter_bucketState, simp add: bucketState_def)
qed

lemma foldl_updateDesc_bucketState:
  "bucketState (foldl (updateDesc perf i) st ds) = bucketState st"
  by (induction ds arbitrary: st) (simp_all add: updateDesc_bucketState)

lemma updateCRBMetrics_bucketState: "bucketState (updateCRBMetrics data i st) = bucketState st"
  by (simp add: updateCRBMetrics_def foldl_updateDesc_bucketState split: option.splits dyn.splits)

lemma updateCRBMetrics_malformed:
  "\<not> hasPerformanceMetrics data \<Longrightarrow> updateCRBMetrics data i st = st"
  by (simp add: hasPerformanceMetrics_def updateCRBMetrics_def split: option.splits dyn.splits)

lemma ensureAuthenticated_Inr:
  "ensureAuthenticated r c = Inr c1 \<Longrightarrow>
   authenticated c1 \<and> vplcName c1 = vplcName c \<and> metrics c1 = metrics c
   \<and> running c1 = running c \<and> inFlight c1 = inFlight c"
  by (auto simp: ensureAuthenticated_def split: if_splits option.splits)

lemma cycleBody_bucketState:
  "bucketState (metrics (cycleBody (r\<lparr>crbResponse := x\<rparr>) c)) = bucketState (metrics (cycleBody r c))"
proof -
  have e: "ensureAuthenticated (r\<lparr>crbResponse := x\<rparr>) c = ensureAuthenticated r c"
    by (simp add: ensureAuthenticated_def)
  show ?thesis
    unfolding cycleBody_def e
    by (cases "ensureAuthenticated r c"; cases "histogramResponse r"; cases x; cases "crbResponse r")
      (simp_all add: updateCRBMetrics_bucketState)
qed

text \<open>
  Claim C6. Take a cycle whose session step succeeds and whose histogram request does not
  fail. If the scalar document does not parse, or parses without a \<open>performanceMetrics\<close>
  map, then the stored last raw values, the counters and the gauges of the whole registry are
  exactly as before the cycle, the registry is what the histogram update alone makes of it,
  and the session stays valid with its token. Whatever the scalar document is, the bucket
  half of the registry after the cycle is the same. Symmetrically, if the histogram document
  does not parse and the scalar document does, the registry after the cycle is the result of
  \<open>updateCRBMetrics\<close> and the session stays valid.
\<close>

theorem cycleBody_malformed_document:
  assumes "ensureAuthenticated r c = Inr c1" and "histogramResponse r \<noteq> RequestFailed"
  shows "(crbResponse r = Unparsable
            \<or> (\<exists>crb. crbResponse r = Parsed crb \<and> \<not> hasPerformanceMetrics crb) \<longrightarrow>
          scalarState (metrics (cycleBody r c)) = scalarState (metrics c)
          \<and> metrics (cycleBody r c) =
              (case histogramResponse r of
                 Parsed hist \<Rightarrow> updateHistograms hist (vplcName c) (metrics c)
               | _ \<Rightarrow> metrics c)
          \<and> authenticated (cycleBody r c) \<and> token (cycleBody r c) = token c1)
       \<and> bucketState (metrics (cycleBody (r\<lparr>crbResponse := other\<rparr>) c))
           = bucketState (metrics (cycleBody r c))
       \<and> (histogramResponse r = Unparsable \<and> crbResponse r = Parsed crb' \<longrightarrow>
          metrics (cycleBody r c) = updateCRBMetrics crb' (vplcName c) (metrics c)
          \<and> authenticated (cycleBody r c) \<and> token (cycleBody r c) = token c1)"
proof -
  note a = ensureAuthenticated_Inr [OF assms(1)]
  have m: "scalarState (metrics (cycleBody r c)) = scalarState (metrics c)
          \<and> metrics (cycleBody r c) =
              (case histogramResponse r of
                 Parsed hist \<Rightarrow> updateHistograms hist (vplcName c) (metrics c)
               | _ \<Rightarrow> metrics c)
          \<and> authenticated (cycleBody r c) \<and> token (cycleBody r c) = token c1"
    if "crbResponse r = Unparsable \<or> (\<exists>crb. crbResponse r = Parsed crb \<and> \<not> hasPerformanceMetrics crb)"
    using that assms a
    by (cases "histogramResponse r")
      (auto simp: cycleBody_def updateCRBMetrics_malformed updateHistograms_scalarState)
  have s: "metrics (cycleBody r c) = updateCRBMetrics crb' (vplcName c) (metrics c)
          \<and> authenticated (cycleBody r c) \<and> token (cycleBody r c) = token c1"
    if "histogramResponse r = Unparsable" "crbResponse r = Parsed crb'"
    using that assms(1) a by (simp add: cycleBody_def)
  from m s cycleBody_bucketState [where r = r and x = other and c = c] show ?thesis by blast
qed

theorem cycleBody_malformed_document_witness:
  "ensureAuthenticated
     \<lparr>authResponse = None,
      histogramResponse = Parsed \<lparr>Timestamp = 0, CycleExtensionDurationHistogram = [],
         WriteDurationHistogram = [(''0-1ms'', 3)]\<rparr>,
      crbResponse = Parsed [(''status'', StrV ''busy'')]\<rparr>
     \<lparr>vplcName = ''plc1'', token = ''t'', authenticated = True, running = 1, inFlight = 1,
      metrics = emptyRegistry\<lparr>crbMetrics := [(''crb_total_cycle_count'', ''plc1'') \<mapsto> 5]\<rparr>\<rparr>
   = Inr \<lparr>vplcName = ''plc1'', token = ''t'', authenticated = True, running = 1, inFlight = 1,
      metrics = emptyRegistry\<lparr>crbMetrics := [(''crb_total_cycle_count'', ''plc1'') \<mapsto> 5]\<rparr>\<rparr>
   \<and> \<not> hasPerformanceMetrics [(''status'', StrV ''busy'')]
   \<and> scalarState (metrics (cycleBody
     \<lparr>authResponse = None,
      histogramResponse = Parsed \<lparr>Timestamp = 0, CycleExtensionDurationHistogram = [],
         WriteDurationHistogram = [(''0-1ms'', 3)]\<rparr>,
      crbResponse = Parsed [(''status'', StrV ''busy'')]\<rparr>
     \<lparr>vplcName = ''plc1'', token = ''t'', authenticated = True, running = 1, inFlight = 1,
      metrics = emptyRegistry\<lparr>crbMetrics := [(''crb_total_cycle_count'', ''plc1'') \<mapsto> 5]\<rparr>\<rparr>))
     = scalarState (emptyRegistry\<lparr>crbMetrics := [(''crb_total_cycle_count'', ''plc1'') \<mapsto> 5]\<rparr>)
   \<and> authenticated (cycleBody
     \<lparr>authResponse = None,
      histogramResponse = Parsed \<lparr>Timestamp = 0, CycleExtensionDurationHistogram = [],
         WriteDurationHistogram = [(''0-1ms'', 3)]\<rparr>,
      crbResponse = Parsed [(''status'', StrV ''busy'')]\<rparr>
     \<lparr>vplcName = ''plc1'', token = ''t'', authenticated = True, running = 1, inFlight = 1,
      metrics = emptyRegistry\<lparr>crbMetrics := [(''crb_total_cycle_count'', ''plc1'') \<mapsto> 5]\<rparr>\<rparr>)
   \<and> metrics (cycleBody
     \<lparr>authResponse = Some ''tok'', histogramResponse = Unparsable,
      crbResponse = Parsed [(''performanceMetrics'', MapV [(''writeAttempts'', Float64V 5)])]\<rparr>
     (initialCollector ''plc1'' emptyRegistry))
     = updateCRBMetrics [(''performanceMetrics'', MapV [(''writeAttempts'', Float64V 5)])]
         ''plc1'' emptyRegistry"
proof -
  let ?r = "\<lparr>authResponse = None,
      histogramResponse = Parsed \<lparr>Timestamp = 0, CycleExtensionDurationHistogram = [],
         WriteDurationHistogram = [(''0-1ms'', 3)]\<rparr>,
      crbResponse = Parsed [(''status'', StrV ''busy'')]\<rparr>"
  let ?c = "\<lparr>vplcName = ''plc1'', token = ''t'', authenticated = True, running = 1, inFlight = 1,
      metrics = emptyRegistry\<lparr>crbMetrics := [(''crb_total_cycle_count'', ''plc1'') \<mapsto> 5]\<rparr>\<rparr>"
  let ?r' = "\<lparr>authResponse = Some ''tok'', histogramResponse = Unparsable,
      crbResponse = Parsed [(''performanceMetrics'', MapV [(''writeAttempts'', Float64V 5)])]\<rparr>"
  let ?c' = "initialCollector ''plc1'' emptyRegistry"
  have a: "ensureAuthenticated ?r ?c = Inr ?c" by (simp add: ensureAuthenticated_def)
  have h: "histogramResponse ?r \<noteq> RequestFailed" by simp
  have n: "\<not> hasPerformanceMetrics [(''status'', StrV ''busy'')]"
    by (simp add: hasPerformanceMetrics_def)
  have a': "ensureAuthenticated ?r' ?c' = Inr (?c'\<lparr>token := ''tok'', authenticated := True\<rparr>)"
    by (simp add: ensureAuthenticated_def initialCollector_def)
  have h': "histogramResponse ?r' \<noteq> RequestFailed" by simp
  have hyp: "crbResponse ?r = Unparsable
      \<or> (\<exists>crb. crbResponse ?r = Parsed crb \<and> \<not> hasPerformanceMetrics crb)"
    using n by simp
  from cycleBody_malformed_document [OF a h, of Unparsable "[]"] hyp
  have A: "scalarState (metrics (cycleBody ?r ?c)) = scalarState (metrics ?c)"
    and B: "authenticated (cycleBody ?r ?c)" by blast+
  have hyp': "histogramResponse ?r' = Unparsable
      \<and> crbResponse ?r' = Parsed [(''performanceMetrics'', MapV [(''writeAttempts'', Float64V 5)])]"
    by simp
  from cycleBody_malformed_document [OF a' h', of Unparsable
      "[(''performanceMetrics'', MapV [(''writeAttempts'', Float64V 5)])]"] hyp'
  have C: "metrics (cycleBody ?r' ?c')
      = updateCRBMetrics [(''performanceMetrics'', MapV [(''writeAttempts'', Float64V 5)])]
          (vplcName ?c') (metrics ?c')" by blast
  have D: "vplcName ?c' = ''plc1''" "metrics ?c' = emptyRegistry"
    by (simp_all add: initialCollector_def)
  have E: "metrics ?c = emptyRegistry\<lparr>crbMetrics := [(''crb_total_cycle_count'', ''plc1'') \<mapsto> 5]\<rparr>"
    by simp
  from a n A B C show ?thesis unfolding D E by blast
qed

lemma cycleBody_flags:
  "running (cycleBody r c) = running c" "inFlight (cycleBody r c) = inFlight c"
  by (auto simp: cycleBody_def ensureAuthenticated_def Let_def
      split: sum.splits fetched.splits option.splits if_splits)

lemma step_invariant:
  assumes "running c = 0 \<and> inFlight c = 0 \<or> running c = 1 \<and> inFlight c = 1"
  shows "running (step c e) = 0 \<and> inFlight (step c e) = 0
       \<or> running (step c e) = 1 \<and> inFlight (step c e) = 1"
  using assms by (cases e) (auto simp: cycleBody_flags)

lemma run_invariant:
  assumes "running c = 0 \<and> inFlight c = 0 \<or> running c = 1 \<and> inFlight c = 1"
  shows "running (run c events) = 0 \<and> inFlight (run c events) = 0
       \<or> running (run c events) = 1 \<and> inFlight (run c events) = 1"
  using assms
proof (induction events arbitrary: c)
  case Nil
  then show ?case by (simp add: run_def)
next
  case (Cons e events)
  have "run c (e # events) = run (step c e) events" by (simp add: run_def)
  with Cons.IH [OF step_invariant [OF Cons.prems, of e]] show ?case by simp
qed

text \<open>
  Claim C8. A tick that finds \<open>running\<close> set leaves the whole state of the instance as it
  is (session, registry, flag) and starts no cycle, so no login and no fetch is made for it;
  it leaves no trace: any later events lead to the same state with or without it. From the
  initial state, after any sequence of ticks and returning cycles, at most one cycle
  goroutine of the instance is in flight, and \<open>running\<close> is set exactly while one is.
\<close>

theorem tick_overlap_guard:
  "(running c \<noteq> 0 \<longrightarrow> step c Tick = c)
   \<and> (running c \<noteq> 0 \<longrightarrow> run c (Tick # events) = run c events)
   \<and> inFlight (run (initialCollector name reg) events) \<le> 1
   \<and> (running (run (initialCollector name reg) events) \<noteq> 0
        \<longleftrightarrow> inFlight (run (initialCollector name reg) events) = 1)"
proof -
  have i: "running (initialCollector name reg) = 0 \<and> inFlight (initialCollector name reg) = 0
      \<or> running (initialCollector name reg) = 1 \<and> inFlight (initialCollector name reg) = 1"
    by (simp add: initialCollector_def)
  have t: "running c \<noteq> 0 \<Longrightarrow> step c Tick = c" by simp
  have q: "running c \<noteq> 0 \<Longrightarrow> run c (Tick # events) = run c events" by (simp add: run_def)
  from run_invariant [OF i, of events] t q show ?thesis by auto
qed

theorem tick_overlap_guard_witness:
  "running (step (initialCollector ''plc1'' emptyRegistry) Tick) \<noteq> 0
   \<and> step (step (initialCollector ''plc1'' emptyRegistry) Tick) Tick
       = step (initialCollector ''plc1'' emptyRegistry) Tick
   \<and> inFlight (run (initialCollector ''plc1'' emptyRegistry) [Tick, Tick, Tick]) = 1"
proof -
  have r: "running (step (initialCollector ''plc1'' emptyRegistry) Tick) \<noteq> 0"
    by (simp add: initialCollector_def)
  have f: "inFlight (run (initialCollector ''plc1'' emptyRegistry) [Tick, Tick, Tick]) = 1"
    by (simp add: initialCollector_def run_def)
  from tick_overlap_guard [of "step (initialCollector ''plc1'' emptyRegistry) Tick" "[]"
      "''plc1''" emptyRegistry] r f
  show ?thesis by simp
qed

end
